theory Spec2Isabelle
  imports
    Main
    "HOL-Library.Word"
    "HOL-Library.Signed_Division"
    "HOL-Library.Multiset"
    "HOL-Library.List_Lexorder"
    "HOL-Library.Char_ord"
begin

section \<open>The hash table of source/tools/tHashTable.h and the dictionary on top of it\<close>

text \<open>
  \<^verbatim>\<open>tHashTable<HASH_TYPE, DATA_TYPE>\<close> keeps every entry in one linked list
  (\<^verbatim>\<open>entry_list\<close>) and an array of node pointers (\<^verbatim>\<open>cell_array\<close>), one per hash
  cell, each NULL or pointing at the first list node of its cell.  \<^verbatim>\<open>tDictionary<T>\<close>
  wraps a \<^verbatim>\<open>tHashTable<cString, T>\<close> and adds \<^verbatim>\<open>Load\<close> and \<^verbatim>\<open>NearMatch\<close>.

  Everything that makes a C++ run stop is a value of \<open>error\<close>: the \<^verbatim>\<open>assert\<close> of
  \<^verbatim>\<open>Remove\<close>, the \<^verbatim>\<open>%\<close> by a zero \<^verbatim>\<open>table_size\<close>, an array index out of range,
  an array of negative size, a pointer to a node that is not in the list, a string that
  does not convert.
\<close>

datatype error =
    AssertionFailure
  | DivisionByZero
  | IndexOutOfBounds
  | BadArraySize
  | DanglingNode
  | ConversionFailure

subsection \<open>Entries, list nodes and the table\<close>

text \<open>
  \<^verbatim>\<open>struct tHashEntry { E_HASH_TYPE key; int id; E_DATA_TYPE data; }\<close>.
  The field \<^verbatim>\<open>id\<close> is called \<open>entry_id\<close> here, \<open>id\<close> being the identity of HOL.
\<close>

record ('k, 'v) tHashEntry =
  key :: 'k
  entry_id :: int
  data :: 'v

text \<open>
  Modelled from the spec: \<^verbatim>\<open>tList\<close>, \<^verbatim>\<open>tListNode\<close> and \<^verbatim>\<open>tListIterator\<close> (tList.h is
  not among the sources). The spec's Entry List is "an ordered sequence of all Entries" and
  a bucket slot holds "a non-owning position reference" into it. A list is the sequence of
  its nodes from the first to the last; a node is its address together with what it holds,
  so that a pointer to a node stays the same pointer when other nodes are linked in or
  unlinked around it. An iterator stands on a node or on the list's root (\<open>None\<close>), which
  lies after the last node and before the first.
\<close>

type_synonym node_ptr = nat
type_synonym 'a tListNode = "node_ptr \<times> 'a"
type_synonym 'a tList = "'a tListNode list"

text \<open>
  The members of \<^verbatim>\<open>tHashTable\<close>. \<open>next_node\<close> is not a member: it is the allocator, the
  address that the next \<^verbatim>\<open>new tListNode\<close> returns. The iterator \<^verbatim>\<open>list_it\<close> is no field
  either: every member function puts it on a node (\<^verbatim>\<open>Reset\<close>, \<^verbatim>\<open>Set\<close>) before reading
  it, so it is a local cursor of each function below. \<^verbatim>\<open>entry_count\<close> is an unbounded
  integer here.
\<close>

record ('k, 'v) tHashTable =
  entry_count :: int
  table_size :: int
  entry_list :: "('k, 'v) tHashEntry tList"
  cell_array :: "node_ptr option list"
  next_node :: node_ptr

text \<open>A C \<^verbatim>\<open>int\<close> argument is a 32-bit word, read in two's complement by \<open>sint\<close>.\<close>

type_synonym c_int = "32 word"

definition HASH_TABLE_SIZE_DEFAULT :: c_int where
  "HASH_TABLE_SIZE_DEFAULT = 23"

definition HASH_TABLE_SIZE_MEDIUM :: c_int where
  "HASH_TABLE_SIZE_MEDIUM = 331"

definition HASH_TABLE_SIZE_LARGE :: c_int where
  "HASH_TABLE_SIZE_LARGE = 2311"

subsection \<open>HashKey, one overload per key type\<close>

text \<open>
  A hash function takes the key and \<^verbatim>\<open>table_size\<close>. The table's operations below take
  the overload as their first argument, as the template picks it by \<^verbatim>\<open>HASH_TYPE\<close>.
  C's \<^verbatim>\<open>%\<close> truncates towards zero (\<open>smod\<close>), and by zero it is undefined.
\<close>

type_synonym 'k hash_key = "'k \<Rightarrow> int \<Rightarrow> error + int"

text \<open>
  \<^verbatim>\<open>HASH_TYPE = int\<close>: a key is a 32-bit word, and \<^verbatim>\<open>>\<close>, \<^verbatim>\<open><\<close> and the others compare
  two keys as C compares two \<^verbatim>\<open>int\<close>s, by their values in two's complement. (The order of
  \<open>32 word\<close> itself is the unsigned one.) Strings are compared lexicographically by
  their bytes, and pointer keys, which are words too, by their addresses.
\<close>

datatype int_key = Int_key (int_of_key: c_int)

instantiation int_key :: linorder
begin

definition less_eq_int_key :: "int_key \<Rightarrow> int_key \<Rightarrow> bool" where
  "less_eq_int_key a b = (sint (int_of_key a) \<le> sint (int_of_key b))"

definition less_int_key :: "int_key \<Rightarrow> int_key \<Rightarrow> bool" where
  "less_int_key a b = (sint (int_of_key a) < sint (int_of_key b))"

instance
proof
  fix x y z :: int_key
  show "(x < y) = (x \<le> y \<and> \<not> y \<le> x)"
    by (auto simp: less_eq_int_key_def less_int_key_def)
  show "x \<le> x"
    by (simp add: less_eq_int_key_def)
  show "x \<le> y \<Longrightarrow> y \<le> z \<Longrightarrow> x \<le> z"
    by (simp add: less_eq_int_key_def)
  show "x \<le> y \<or> y \<le> x"
    by (auto simp: less_eq_int_key_def)
  show "x = y" if "x \<le> y" and "y \<le> x"
  proof -
    from that have "sint (int_of_key x) = sint (int_of_key y)"
      by (simp add: less_eq_int_key_def)
    then have "int_of_key x = int_of_key y" by (rule signed_word_eqI)
    then show ?thesis by (rule int_key.expand)
  qed
qed

end

definition HashKey_int :: "int_key hash_key" where
  "HashKey_int k ts =
     (if ts = 0 then Inl DivisionByZero else Inr (abs (sint (int_of_key k) smod ts)))"

text \<open>The key is the pointer cast to \<^verbatim>\<open>int\<close>; \<^verbatim>\<open>>> 2\<close> on an \<^verbatim>\<open>int\<close> keeps the sign.\<close>

definition HashKey_ptr :: "32 word hash_key" where
  "HashKey_ptr k ts =
     (if ts = 0 then Inl DivisionByZero
      else Inr (abs (sint (signed_drop_bit 2 k) smod ts)))"

text \<open>
  \<^verbatim>\<open>(unsigned int) key[i]\<close> of a \<^verbatim>\<open>char\<close>, taken as signed: the byte, sign-extended to
  32 bits.
\<close>

definition char_to_uint :: "char \<Rightarrow> 32 word" where
  "char_to_uint c = word_of_int (sint (of_char c :: 8 word))"

text \<open>
  The sum wraps at \<open>2 ^ 32\<close>; \<^verbatim>\<open>out_hash % table_size\<close> is an unsigned remainder, with
  \<^verbatim>\<open>table_size\<close> converted to \<^verbatim>\<open>unsigned int\<close>, and the result goes back to \<^verbatim>\<open>int\<close>.
\<close>

definition HashKey_cString :: "string hash_key" where
  "HashKey_cString k ts =
     (let out_hash = fold (\<lambda>c h. h + char_to_uint c) k (0 :: 32 word)
      in if ts = 0 then Inl DivisionByZero
         else Inr (sint (out_hash mod (word_of_int ts :: 32 word))))"

subsection \<open>The array and the list\<close>

text \<open>
  Modelled from the spec: \<^verbatim>\<open>tArray\<close> (tArray.h is not among the sources), "a fixed-length
  sequence of \<open>table_size\<close> slots". Reading or writing outside of it stops the run, and so
  does a negative size.
\<close>

definition tArray_get :: "'a list \<Rightarrow> int \<Rightarrow> error + 'a" where
  "tArray_get a i =
     (if 0 \<le> i \<and> i < int (length a) then Inr (a ! nat i) else Inl IndexOutOfBounds)"

definition tArray_ResizeClear :: "int \<Rightarrow> 'a \<Rightarrow> error + 'a list" where
  "tArray_ResizeClear n x = (if n < 0 then Inl BadArraySize else Inr (replicate (nat n) x))"

text \<open>
  Modelled from the spec: \<^verbatim>\<open>tListIterator::Set\<close>, which puts the iterator on the node
  \<open>p\<close>. The result is the list seen from that node: the nodes before it and the nodes from
  it on. A pointer to no node of the list stops the run.
\<close>

definition tListIterator_Set ::
  "node_ptr \<Rightarrow> 'a tList \<Rightarrow> error + ('a tList \<times> 'a tList)" where
  "tListIterator_Set p l =
     (if p \<in> fst ` set l
      then Inr (takeWhile (\<lambda>n. fst n \<noteq> p) l, dropWhile (\<lambda>n. fst n \<noteq> p) l)
      else Inl DanglingNode)"

text \<open>
  Modelled from the spec: \<^verbatim>\<open>tList::Insert\<close>. \<^verbatim>\<open>entry_list.Insert(list_it, x)\<close> links a
  new node in before the iterator's node: before the root, that is at the tail ("appended
  at the tail of the Entry List"), or before the node \<open>p\<close> ("spliced in immediately before
  the bucket's current head entry").
\<close>

definition tList_Insert ::
  "node_ptr option \<Rightarrow> 'a tListNode \<Rightarrow> 'a tList \<Rightarrow> error + 'a tList" where
  "tList_Insert pos new_node l =
     (case pos of
        None \<Rightarrow> Inr (l @ [new_node])
      | Some p \<Rightarrow>
          (case tListIterator_Set p l of
             Inl e \<Rightarrow> Inl e
           | Inr (before, from) \<Rightarrow> Inr (before @ new_node # from)))"

subsection \<open>Construction and lookup\<close>

definition tHashTable_new :: "c_int \<Rightarrow> error + ('k, 'v) tHashTable" where
  "tHashTable_new in_table_size =
     (case tArray_ResizeClear (sint in_table_size) None of
        Inl e \<Rightarrow> Inl e
      | Inr cells \<Rightarrow>
          Inr \<lparr>entry_count = 0, table_size = sint in_table_size, entry_list = [],
               cell_array = cells, next_node = 0\<rparr>)"

text \<open>
  The loop of \<^verbatim>\<open>FindEntry\<close> over the nodes from the iterator on: it stops at the root
  (\<^verbatim>\<open>Get() == NULL\<close>), at the first node of another cell, or at the key.
\<close>

fun FindEntry_loop ::
  "int \<Rightarrow> 'k \<Rightarrow> ('k, 'v) tHashEntry tList \<Rightarrow> ('k, 'v) tHashEntry tListNode option" where
  "FindEntry_loop bin k [] = None"
| "FindEntry_loop bin k (n # ns) =
     (if entry_id (snd n) = bin
      then (if key (snd n) = k then Some n else FindEntry_loop bin k ns)
      else None)"

text \<open>The result is the node that holds the entry found, \<open>None\<close> for NULL.\<close>

definition FindEntry ::
  "'k hash_key \<Rightarrow> 'k \<Rightarrow> ('k, 'v) tHashTable \<Rightarrow>
   error + ('k, 'v) tHashEntry tListNode option" where
  "FindEntry HashKey k t =
     (case HashKey k (table_size t) of
        Inl e \<Rightarrow> Inl e
      | Inr bin \<Rightarrow>
          (case tArray_get (cell_array t) bin of
             Inl e \<Rightarrow> Inl e
           | Inr None \<Rightarrow> Inr None
           | Inr (Some p) \<Rightarrow>
               (case tListIterator_Set p (entry_list t) of
                  Inl e \<Rightarrow> Inl e
                | Inr (before, from) \<Rightarrow> Inr (FindEntry_loop bin k from))))"

definition HasEntry :: "'k hash_key \<Rightarrow> 'k \<Rightarrow> ('k, 'v) tHashTable \<Rightarrow> error + bool" where
  "HasEntry HashKey k t =
     (case FindEntry HashKey k t of Inl e \<Rightarrow> Inl e | Inr r \<Rightarrow> Inr (r \<noteq> None))"

text \<open>\<^verbatim>\<open>Find\<close>: \<open>Some\<close> of what it writes to \<^verbatim>\<open>out_data\<close> when it returns true.\<close>

definition Find :: "'k hash_key \<Rightarrow> 'k \<Rightarrow> ('k, 'v) tHashTable \<Rightarrow> error + 'v option" where
  "Find HashKey k t =
     (case FindEntry HashKey k t of
        Inl e \<Rightarrow> Inl e
      | Inr found_entry \<Rightarrow> Inr (map_option (\<lambda>n. data (snd n)) found_entry))"

definition GetSize :: "('k, 'v) tHashTable \<Rightarrow> int" where
  "GetSize t = entry_count t"

subsection \<open>Add and SetValue\<close>

definition Add ::
  "'k hash_key \<Rightarrow> 'k \<Rightarrow> 'v \<Rightarrow> ('k, 'v) tHashTable \<Rightarrow> error + ('k, 'v) tHashTable" where
  "Add HashKey k d t =
     (case HashKey k (table_size t) of
        Inl e \<Rightarrow> Inl e
      | Inr bin \<Rightarrow>
          (case tArray_get (cell_array t) bin of
             Inl e \<Rightarrow> Inl e
           | Inr cell \<Rightarrow>
               (case tList_Insert cell
                       (next_node t, \<lparr>key = k, entry_id = bin, data = d\<rparr>) (entry_list t) of
                  Inl e \<Rightarrow> Inl e
                | Inr l \<Rightarrow>
                    Inr (t\<lparr>entry_list := l,
                           cell_array := (cell_array t)[nat bin := Some (next_node t)],
                           next_node := Suc (next_node t),
                           entry_count := entry_count t + 1\<rparr>))))"

text \<open>\<^verbatim>\<open>cur_entry->data = data\<close> writes through the pointer that \<^verbatim>\<open>FindEntry\<close> returned.\<close>

definition SetValue ::
  "'k hash_key \<Rightarrow> 'k \<Rightarrow> 'v \<Rightarrow> ('k, 'v) tHashTable \<Rightarrow> error + ('k, 'v) tHashTable" where
  "SetValue HashKey k d t =
     (case FindEntry HashKey k t of
        Inl e \<Rightarrow> Inl e
      | Inr None \<Rightarrow> Add HashKey k d t
      | Inr (Some cur_entry) \<Rightarrow>
          Inr (t\<lparr>entry_list :=
                   map (\<lambda>n. if fst n = fst cur_entry then (fst n, (snd n)\<lparr>data := d\<rparr>) else n)
                       (entry_list t)\<rparr>))"

subsection \<open>Remove\<close>

text \<open>
  The \<^verbatim>\<open>while\<close> loop of \<^verbatim>\<open>Remove\<close> over the nodes after the first of the cell: what it
  assigns to \<^verbatim>\<open>out_data\<close>, if anything, and the nodes that are left.
\<close>

fun Remove_loop ::
  "int \<Rightarrow> 'k \<Rightarrow> ('k, 'v) tHashEntry tList \<Rightarrow> 'v option \<times> ('k, 'v) tHashEntry tList" where
  "Remove_loop bin k [] = (None, [])"
| "Remove_loop bin k (n # ns) =
     (if entry_id (snd n) = bin
      then (if key (snd n) = k then (Some (data (snd n)), ns)
            else (case Remove_loop bin k ns of (out_data, ns') \<Rightarrow> (out_data, n # ns')))
      else (None, n # ns))"

text \<open>
  The value returned is \<^verbatim>\<open>out_data\<close>: \<open>Some\<close> of the data assigned to it, \<open>None\<close> when
  nothing was assigned and it is still as its declaration \<^verbatim>\<open>DATA_TYPE out_data;\<close> left it.
\<close>

definition Remove ::
  "'k hash_key \<Rightarrow> 'k \<Rightarrow> ('k, 'v) tHashTable \<Rightarrow> error + ('v option \<times> ('k, 'v) tHashTable)" where
  "Remove HashKey k t =
     (case HashKey k (table_size t) of
        Inl e \<Rightarrow> Inl e
      | Inr bin \<Rightarrow>
          (case tArray_get (cell_array t) bin of
             Inl e \<Rightarrow> Inl e
           | Inr None \<Rightarrow> Inl AssertionFailure
           | Inr (Some p) \<Rightarrow>
               (case tListIterator_Set p (entry_list t) of
                  Inl e \<Rightarrow> Inl e
                | Inr (before, []) \<Rightarrow> Inl DanglingNode
                | Inr (before, n # ns) \<Rightarrow>
                    (if key (snd n) = k
                     then Inr (Some (data (snd n)),
                               t\<lparr>entry_list := before @ ns,
                                 entry_count := entry_count t - 1,
                                 cell_array := (cell_array t)[nat bin :=
                                   (case ns of
                                      [] \<Rightarrow> None
                                    | m # ms \<Rightarrow>
                                        if entry_id (snd m) = bin then Some (fst m) else None)]\<rparr>)
                     else (case Remove_loop bin k ns of
                             (None, ns') \<Rightarrow> Inr (None, t\<lparr>entry_list := before @ n # ns'\<rparr>)
                           | (Some d, ns') \<Rightarrow>
                               Inr (Some d, t\<lparr>entry_list := before @ n # ns',
                                              entry_count := entry_count t - 1\<rparr>))))))"

subsection \<open>SetTableSize\<close>

text \<open>
  The loop over \<^verbatim>\<open>backup_list\<close>: \<^verbatim>\<open>Pop\<close> takes its first node, whose entry gets its new
  \<^verbatim>\<open>id\<close> and a new node in \<^verbatim>\<open>entry_list\<close>.
\<close>

fun SetTableSize_loop ::
  "'k hash_key \<Rightarrow> ('k, 'v) tHashEntry tList \<Rightarrow> ('k, 'v) tHashTable \<Rightarrow>
   error + ('k, 'v) tHashTable" where
  "SetTableSize_loop HashKey [] t = Inr t"
| "SetTableSize_loop HashKey (n # backup_list) t =
     (case HashKey (key (snd n)) (table_size t) of
        Inl e \<Rightarrow> Inl e
      | Inr bin \<Rightarrow>
          (case tArray_get (cell_array t) bin of
             Inl e \<Rightarrow> Inl e
           | Inr cell \<Rightarrow>
               (case tList_Insert cell (next_node t, (snd n)\<lparr>entry_id := bin\<rparr>) (entry_list t) of
                  Inl e \<Rightarrow> Inl e
                | Inr l \<Rightarrow>
                    SetTableSize_loop HashKey backup_list
                      (t\<lparr>entry_list := l,
                         cell_array := (cell_array t)[nat bin := Some (next_node t)],
                         next_node := Suc (next_node t)\<rparr>))))"

definition SetTableSize ::
  "'k hash_key \<Rightarrow> c_int \<Rightarrow> ('k, 'v) tHashTable \<Rightarrow> error + ('k, 'v) tHashTable" where
  "SetTableSize HashKey hash t =
     (case tArray_ResizeClear (sint hash) None of
        Inl e \<Rightarrow> Inl e
      | Inr cells \<Rightarrow>
          SetTableSize_loop HashKey (entry_list t)
            (t\<lparr>table_size := sint hash, cell_array := cells, entry_list := []\<rparr>))"

subsection \<open>AsLists\<close>

text \<open>
  Modelled from the spec: \<^verbatim>\<open>tListIterator::Next\<close> and \<^verbatim>\<open>tList::Insert\<close> once more, for
  the two output lists. These are local to the caller and nothing points into them, so a
  position in one of them is an index: \<open>0\<close> to \<open>n - 1\<close> for the \<open>n\<close> nodes and \<open>n\<close> for the
  root, from which \<^verbatim>\<open>Next\<close> goes round to the first node. \<^verbatim>\<open>Insert\<close> links the new node
  in before the position.
\<close>

definition tListIterator_Next :: "nat \<Rightarrow> nat \<Rightarrow> nat" where
  "tListIterator_Next n pos = Suc pos mod Suc n"

definition tList_Insert_at :: "nat \<Rightarrow> 'a \<Rightarrow> 'a list \<Rightarrow> 'a list" where
  "tList_Insert_at pos x l = take pos l @ x # drop pos l"

text \<open>
  The inner loop \<^verbatim>\<open>while (key_it.Next() != NULL && cur_key > *(key_it.Get()))\<close>, with
  the \<^verbatim>\<open>>\<close> of \<^verbatim>\<open>HASH_TYPE\<close> (the order of the key type \<open>'k\<close>), over the keys that \<^verbatim>\<open>key_it\<close> has not passed yet; \<open>key_pos\<close> is where the \<^verbatim>\<open>Next()\<close> of the test
  takes \<^verbatim>\<open>key_it\<close>, \<open>value_pos\<close> is where \<^verbatim>\<open>value_it\<close> stands and \<open>n\<close> is the size of
  the value list. The result is where both iterators stand after the loop.
\<close>

fun AsLists_loop :: "'k::linorder \<Rightarrow> 'k list \<Rightarrow> nat \<Rightarrow> nat \<Rightarrow> nat \<Rightarrow> nat \<times> nat" where
  "AsLists_loop cur_key [] key_pos value_pos n = (key_pos, value_pos)"
| "AsLists_loop cur_key (k # ks) key_pos value_pos n =
     (if cur_key > k
      then AsLists_loop cur_key ks (Suc key_pos) (tListIterator_Next n value_pos) n
      else (key_pos, value_pos))"

text \<open>
  One round of the outer loop, for the entry of one node: both iterators are reset,
  \<^verbatim>\<open>value_it\<close> steps once, the inner loop runs, and key and value are inserted.
\<close>

definition AsLists_step ::
  "('k::linorder, 'v) tHashEntry tListNode \<Rightarrow> 'k list \<times> 'v list \<Rightarrow> 'k list \<times> 'v list" where
  "AsLists_step n out_lists =
     (case out_lists of (key_list, value_list) \<Rightarrow>
        (case AsLists_loop (key (snd n)) key_list 0
                (tListIterator_Next (length value_list) (length value_list))
                (length value_list) of
           (key_pos, value_pos) \<Rightarrow>
             (tList_Insert_at key_pos (key (snd n)) key_list,
              tList_Insert_at value_pos (data (snd n)) value_list)))"

text \<open>Both lists are empty at the call (the two \<^verbatim>\<open>assert\<close>s).\<close>

definition AsLists :: "('k::linorder, 'v) tHashTable \<Rightarrow> 'k list \<times> 'v list" where
  "AsLists t = fold AsLists_step (entry_list t) ([], [])"

subsection \<open>tDictionary\<close>

text \<open>
  Modelled from the spec: \<^verbatim>\<open>cStringUtil::EditDistance\<close> (cStringUtil is not among the
  sources), "an edit-distance (Levenshtein)". \<^verbatim>\<open>NearMatch\<close> below takes the distance as
  an argument; this one is the distance of the examples.
\<close>

fun EditDistance :: "string \<Rightarrow> string \<Rightarrow> int" where
  "EditDistance [] ys = int (length ys)"
| "EditDistance (x # xs) [] = int (length (x # xs))"
| "EditDistance (x # xs) (y # ys) =
     min (min (EditDistance xs (y # ys) + 1) (EditDistance (x # xs) ys + 1))
         (EditDistance xs ys + (if x = y then 0 else 1))"

text \<open>The loop of \<^verbatim>\<open>NearMatch\<close> over the keys, on \<^verbatim>\<open>best_match\<close> and \<^verbatim>\<open>best_dist\<close>.\<close>

fun NearMatch_loop ::
  "(string \<Rightarrow> string \<Rightarrow> int) \<Rightarrow> string \<Rightarrow> string list \<Rightarrow> string \<times> int \<Rightarrow> string \<times> int" where
  "NearMatch_loop dist_fn name [] best = best"
| "NearMatch_loop dist_fn name (k # ks) best =
     (case best of (best_match, best_dist) \<Rightarrow>
        (let dist = dist_fn name k
         in if dist < best_dist then NearMatch_loop dist_fn name ks (k, dist)
            else NearMatch_loop dist_fn name ks (best_match, best_dist)))"

definition NearMatch ::
  "(string \<Rightarrow> string \<Rightarrow> int) \<Rightarrow> string \<Rightarrow> (string, 'v) tHashTable \<Rightarrow> string" where
  "NearMatch dist_fn name m_hash =
     (case AsLists m_hash of
        (key_list, value_list) \<Rightarrow>
          fst (NearMatch_loop dist_fn name key_list ('''', int (length name))))"

text \<open>
  Modelled from the spec: \<^verbatim>\<open>cString::Pop\<close> (cString is not among the sources), which
  \<^verbatim>\<open>Load\<close> uses to "split \<open>text\<close> at the first occurrence of \<open>separator\<close> into a key and a
  remainder": the key is returned, the remainder is what is left of the string.
\<close>

definition cString_Pop :: "char \<Rightarrow> string \<Rightarrow> string \<times> string" where
  "cString_Pop delim s =
     (takeWhile (\<lambda>c. c \<noteq> delim) s, drop 1 (dropWhile (\<lambda>c. c \<noteq> delim) s))"

text \<open>
  Modelled from the spec: \<^verbatim>\<open>cStringUtil::Convert\<close> is not among the sources; it is the
  argument \<open>Convert\<close>, "the shared string-to-value conversion", whose failure "is an error
  condition": it returns the value or stops with an error. \<^verbatim>\<open>Load\<close> has no handler
  around the call.
\<close>

definition Load ::
  "(string \<Rightarrow> error + 'v) \<Rightarrow> string \<Rightarrow> char \<Rightarrow> (string, 'v) tHashTable \<Rightarrow>
   error + (string, 'v) tHashTable" where
  "Load Convert load_string assign m_hash =
     (case cString_Pop assign load_string of
        (k, rest) \<Rightarrow>
          (case Convert rest of
             Inl e \<Rightarrow> Inl e
           | Inr v \<Rightarrow> SetValue HashKey_cString k v m_hash))"

subsection \<open>Sequences of operations\<close>

datatype ('k, 'v) operation =
    Op_Add 'k 'v
  | Op_SetValue 'k 'v
  | Op_Remove 'k
  | Op_SetTableSize c_int

fun apply_operation ::
  "'k hash_key \<Rightarrow> ('k, 'v) operation \<Rightarrow> ('k, 'v) tHashTable \<Rightarrow> error + ('k, 'v) tHashTable" where
  "apply_operation HashKey (Op_Add k d) t = Add HashKey k d t"
| "apply_operation HashKey (Op_SetValue k d) t = SetValue HashKey k d t"
| "apply_operation HashKey (Op_Remove k) t =
     (case Remove HashKey k t of Inl e \<Rightarrow> Inl e | Inr (out_data, t') \<Rightarrow> Inr t')"
| "apply_operation HashKey (Op_SetTableSize n) t = SetTableSize HashKey n t"

text \<open>A run stops at the first operation that stops.\<close>

fun run_operations ::
  "'k hash_key \<Rightarrow> ('k, 'v) operation list \<Rightarrow> ('k, 'v) tHashTable \<Rightarrow>
   error + ('k, 'v) tHashTable" where
  "run_operations HashKey [] t = Inr t"
| "run_operations HashKey (op # ops) t =
     (case apply_operation HashKey op t of
        Inl e \<Rightarrow> Inl e
      | Inr t' \<Rightarrow> run_operations HashKey ops t')"

subsection \<open>Invariants\<close>

text \<open>
  The entries of one cell form one run: between two positions of the list with the same
  \<^verbatim>\<open>id\<close>, every position has that \<^verbatim>\<open>id\<close>.
\<close>

definition contiguous_runs :: "int list \<Rightarrow> bool" where
  "contiguous_runs ids =
     (\<forall>k<length ids. \<forall>j\<le>k. \<forall>i\<le>j. ids ! i = ids ! k \<longrightarrow> ids ! j = ids ! i)"

text \<open>The four properties that the table keeps over every run of operations.\<close>

definition table_invariants :: "'k hash_key \<Rightarrow> ('k, 'v) tHashTable \<Rightarrow> bool" where
  "table_invariants HashKey t =
     (entry_count t = int (length (entry_list t)) \<and>
      (\<forall>b<length (cell_array t).
         case cell_array t ! b of
           None \<Rightarrow> True
         | Some p \<Rightarrow> \<exists>n\<in>set (entry_list t). fst n = p \<and> entry_id (snd n) = int b) \<and>
      contiguous_runs (map (\<lambda>n. entry_id (snd n)) (entry_list t)) \<and>
      (\<forall>n\<in>set (entry_list t). HashKey (key (snd n)) (table_size t) = Inr (entry_id (snd n))))"

text \<open>
  The same, in the form that each operation preserves. The runs, recursively: an \<^verbatim>\<open>id\<close>
  does not come back once its run is over.
\<close>

fun grouped :: "int list \<Rightarrow> bool" where
  "grouped [] = True"
| "grouped (x # xs) = (x \<notin> set (dropWhile (\<lambda>y. y = x) xs) \<and> grouped xs)"

text \<open>The node that the cell \<open>b\<close> has to point at: the first one with that \<^verbatim>\<open>id\<close>.\<close>

definition bucket_head :: "int \<Rightarrow> ('k, 'v) tHashEntry tList \<Rightarrow> node_ptr option" where
  "bucket_head b l = map_option fst (List.find (\<lambda>n. entry_id (snd n) = b) l)"

definition structure_ok ::
  "'k hash_key \<Rightarrow> int \<Rightarrow> ('k, 'v) tHashEntry tList \<Rightarrow> node_ptr option list \<Rightarrow> node_ptr \<Rightarrow> bool"
  where
  "structure_ok HashKey ts l cells nn =
     (ts < 2 ^ 31 \<and>
      cells = map (\<lambda>b. bucket_head (int b) l) [0..<nat ts] \<and>
      distinct (map fst l) \<and>
      (\<forall>n\<in>set l. fst n < nn) \<and>
      (\<forall>n\<in>set l. HashKey (key (snd n)) ts = Inr (entry_id (snd n)) \<and>
                   0 \<le> entry_id (snd n) \<and> entry_id (snd n) < ts) \<and>
      grouped (map (\<lambda>n. entry_id (snd n)) l))"

definition table_ok :: "'k hash_key \<Rightarrow> ('k, 'v) tHashTable \<Rightarrow> bool" where
  "table_ok HashKey t =
     (entry_count t = int (length (entry_list t)) \<and>
      structure_ok HashKey (table_size t) (entry_list t) (cell_array t) (next_node t))"

text \<open>
  What the operations need of an overload of \<^verbatim>\<open>HashKey\<close>: for a table size that a
  positive \<^verbatim>\<open>int\<close> can hold, it returns an index into the cell array.
\<close>

definition hash_in_range :: "'k hash_key \<Rightarrow> bool" where
  "hash_in_range HashKey =
     (\<forall>k ts. 0 < ts \<and> ts < 2 ^ 31 \<longrightarrow>
        (\<exists>bin. HashKey k ts = Inr bin \<and> 0 \<le> bin \<and> bin < ts))"

section \<open>AsLists: ascending keys, values paired with them\<close>

lemma AsLists_loop_pos:
  "i + length ks \<le> n \<Longrightarrow>
   AsLists_loop c ks i i n =
     (i + length (takeWhile (\<lambda>k. c > k) ks), i + length (takeWhile (\<lambda>k. c > k) ks))"
  by (induction ks arbitrary: i) (simp_all add: tListIterator_Next_def)

lemma Insert_at_insort:
  "length ks = length vs \<Longrightarrow>
   zip (tList_Insert_at (length (takeWhile (\<lambda>k. c > k) ks)) c ks)
       (tList_Insert_at (length (takeWhile (\<lambda>k. c > k) ks)) d vs) =
     insort_key fst (c, d) (zip ks vs)"
  by (induction ks vs rule: list_induct2) (auto simp: tList_Insert_at_def)

lemma Insert_at_length: "length (tList_Insert_at p x l) = Suc (length l)"
  by (simp add: tList_Insert_at_def)

lemma AsLists_step_zip:
  assumes "length ks = length vs"
  shows "length (fst (AsLists_step n (ks, vs))) = length (snd (AsLists_step n (ks, vs)))"
    and "zip (fst (AsLists_step n (ks, vs))) (snd (AsLists_step n (ks, vs))) =
         insort_key fst (key (snd n), data (snd n)) (zip ks vs)"
  using assms AsLists_loop_pos [of 0 ks "length vs" "key (snd n)"]
  by (simp_all add: AsLists_step_def tListIterator_Next_def Insert_at_length Insert_at_insort)

lemma AsLists_fold:
  "length ks = length vs \<Longrightarrow>
   length (fst (fold AsLists_step l (ks, vs))) = length (snd (fold AsLists_step l (ks, vs))) \<and>
   zip (fst (fold AsLists_step l (ks, vs))) (snd (fold AsLists_step l (ks, vs))) =
     fold (insort_key fst) (map (\<lambda>n. (key (snd n), data (snd n))) l) (zip ks vs)"
proof (induction l arbitrary: ks vs)
  case Nil
  then show ?case by simp
next
  case (Cons n l)
  obtain ks' vs' where s: "AsLists_step n (ks, vs) = (ks', vs')"
    by (cases "AsLists_step n (ks, vs)")
  from AsLists_step_zip [OF Cons.prems, of n] s
  have "length ks' = length vs'"
    and "zip ks' vs' = insort_key fst (key (snd n), data (snd n)) (zip ks vs)"
    by simp_all
  with Cons.IH [of ks' vs'] s show ?case by simp
qed

lemma fold_insort_key_sort: "fold (insort_key f) xs [] = sort_key f (rev xs)"
  by (simp add: sort_key_def foldr_conv_fold)

lemma AsLists_zip:
  "length (fst (AsLists t)) = length (snd (AsLists t))"
  "zip (fst (AsLists t)) (snd (AsLists t)) =
     sort_key fst (rev (map (\<lambda>n. (key (snd n), data (snd n))) (entry_list t)))"
  using AsLists_fold [of "[]" "[]" "entry_list t"]
  by (simp_all add: AsLists_def fold_insort_key_sort)

lemma AsLists_keys: "fst (AsLists t) = sort (map (\<lambda>n. key (snd n)) (entry_list t))"
proof -
  have "fst (AsLists t) = map fst (zip (fst (AsLists t)) (snd (AsLists t)))"
    using AsLists_zip(1) [of t] by simp
  also have "\<dots> =
      map fst (sort_key fst (rev (map (\<lambda>n. (key (snd n), data (snd n))) (entry_list t))))"
    by (simp only: AsLists_zip(2))
  also have "\<dots> = sort (map (\<lambda>n. key (snd n)) (entry_list t))"
    by (rule properties_for_sort [symmetric])
       (simp_all add: image_mset.compositionality comp_def)
  finally show ?thesis .
qed

text \<open>
  C7. The key list that \<^verbatim>\<open>AsLists\<close> fills is in ascending order of the \<^verbatim>\<open>>\<close> of the key
  type (for \<^verbatim>\<open>int\<close> keys the signed order, for strings the lexicographic one, for pointers
  that of the addresses): it is the sorted list of the keys of the entries, whatever the
  order of the entry list. The value list has the same length, and the pairs of the two
  lists, position by position, are the (key, data) pairs of the entries: they are the
  entries taken from the last to the first and sorted by key alone, each one put before
  the first pair whose key is not smaller.
\<close>

theorem AsLists_ascending_and_paired:
  "sorted (fst (AsLists t)) \<and>
   fst (AsLists t) = sort (map (\<lambda>n. key (snd n)) (entry_list t)) \<and>
   length (snd (AsLists t)) = length (fst (AsLists t)) \<and>
   zip (fst (AsLists t)) (snd (AsLists t)) =
     sort_key fst (rev (map (\<lambda>n. (key (snd n), data (snd n))) (entry_list t))) \<and>
   mset (zip (fst (AsLists t)) (snd (AsLists t))) =
     mset (map (\<lambda>n. (key (snd n), data (snd n))) (entry_list t))"
proof -
  have "sorted (fst (AsLists t))"
    by (simp add: AsLists_keys)
  moreover have "mset (zip (fst (AsLists t)) (snd (AsLists t))) =
      mset (map (\<lambda>n. (key (snd n), data (snd n))) (entry_list t))"
    by (simp only: AsLists_zip(2) mset_sort mset_rev)
  ultimately show ?thesis
    using AsLists_keys [of t] AsLists_zip [of t] by simp
qed

theorem AsLists_ascending_and_paired_witness:
  "AsLists
     \<lparr>entry_count = 4, table_size = 3,
      entry_list =
        [(0, \<lparr>key = Int_key 0, entry_id = 0, data = ''zero''\<rparr>),
         (3, \<lparr>key = Int_key (- 2147483648), entry_id = 2, data = ''min''\<rparr>),
         (2, \<lparr>key = Int_key (- 1), entry_id = 1, data = ''minus one''\<rparr>),
         (1, \<lparr>key = Int_key 1, entry_id = 1, data = ''one''\<rparr>)],
      cell_array = [Some 0, Some 2, Some 3], next_node = 4\<rparr> =
     ([Int_key (- 2147483648), Int_key (- 1), Int_key 0, Int_key 1],
      [''min'', ''minus one'', ''zero'', ''one'']) \<and>
   sorted [Int_key (- 2147483648), Int_key (- 1), Int_key 0, Int_key 1] \<and>
   sort [Int_key 0, Int_key (- 2147483648), Int_key (- 1), Int_key 1] =
     [Int_key (- 2147483648), Int_key (- 1), Int_key 0, Int_key 1] \<and>
   sint (int_of_key (Int_key (- 2147483648))) = - 2147483648"
proof -
  let ?T = "\<lparr>entry_count = 4, table_size = 3,
      entry_list =
        [(0, \<lparr>key = Int_key 0, entry_id = 0, data = ''zero''\<rparr>),
         (3, \<lparr>key = Int_key (- 2147483648), entry_id = 2, data = ''min''\<rparr>),
         (2, \<lparr>key = Int_key (- 1), entry_id = 1, data = ''minus one''\<rparr>),
         (1, \<lparr>key = Int_key 1, entry_id = 1, data = ''one''\<rparr>)],
      cell_array = [Some 0, Some 2, Some 3], next_node = 4\<rparr> :: (int_key, string) tHashTable"
  have a: "AsLists ?T =
     ([Int_key (- 2147483648), Int_key (- 1), Int_key 0, Int_key 1],
      [''min'', ''minus one'', ''zero'', ''one''])"
    by code_simp
  have m: "sint (int_of_key (Int_key (- 2147483648))) = - 2147483648"
    by simp
  have so: "sort [Int_key 0, Int_key (- 2147483648), Int_key (- 1), Int_key 1] =
     [Int_key (- 2147483648), Int_key (- 1), Int_key 0, Int_key 1]"
    by code_simp
  from AsLists_ascending_and_paired [of ?T]
  have "sorted (fst (AsLists ?T))" by blast
  then have s: "sorted [Int_key (- 2147483648), Int_key (- 1), Int_key 0, Int_key 1]"
    by (simp only: a fst_conv)
  from a s so m show ?thesis by (intro conjI)
qed

section \<open>Basic facts\<close>

lemma tArray_get_Inr:
  "tArray_get a i = Inr x \<longleftrightarrow> 0 \<le> i \<and> i < int (length a) \<and> x = a ! nat i"
  by (auto simp: tArray_get_def)

lemma tListIterator_Set_Inr:
  "tListIterator_Set p l = Inr (b, f) \<longleftrightarrow>
     p \<in> fst ` set l \<and> b = takeWhile (\<lambda>n. fst n \<noteq> p) l \<and> f = dropWhile (\<lambda>n. fst n \<noteq> p) l"
  by (auto simp: tListIterator_Set_def)

subsection \<open>Runs\<close>

lemma set_dropWhile_append_subset:
  "set (dropWhile P (xs @ ys)) \<subseteq> set (dropWhile P xs) \<union> set ys"
  by (induction xs) (auto dest: set_dropWhileD)

lemma grouped_snoc: "grouped xs \<Longrightarrow> b \<notin> set xs \<Longrightarrow> grouped (xs @ [b])"
proof (induction xs)
  case Nil
  then show ?case by simp
next
  case (Cons x xs)
  have "set (dropWhile (\<lambda>y. y = x) (xs @ [b])) \<subseteq> set (dropWhile (\<lambda>y. y = x) xs) \<union> {b}"
    using set_dropWhile_append_subset [of "\<lambda>y. y = x" xs "[b]"] by simp
  with Cons show ?case by auto
qed

lemma set_dropWhile_double:
  "set (dropWhile P (xs @ b # b # ys)) = set (dropWhile P (xs @ b # ys))"
  by (induction xs) auto

lemma grouped_double: "b \<notin> set xs \<Longrightarrow> grouped (xs @ b # ys) \<Longrightarrow> grouped (xs @ b # b # ys)"
  by (induction xs) (auto simp: set_dropWhile_double)

lemma set_dropWhile_delete:
  "set (dropWhile P (xs @ ys)) \<subseteq> set (dropWhile P (xs @ x # ys))"
  by (induction xs) (auto dest: set_dropWhileD)

lemma grouped_delete: "grouped (xs @ x # ys) \<Longrightarrow> grouped (xs @ ys)"
proof (induction xs)
  case Nil
  then show ?case by simp
next
  case (Cons y xs)
  then show ?case
    using set_dropWhile_delete [of "\<lambda>z. z = y" xs ys x] by auto
qed

lemma grouped_append_right: "grouped (xs @ ys) \<Longrightarrow> grouped ys"
  by (induction xs) auto

lemma grouped_remove1: "grouped (map f l) \<Longrightarrow> grouped (map f (remove1 m l))"
proof (cases "m \<in> set l")
  case True
  then obtain xs ys where l: "l = xs @ m # ys" and "m \<notin> set xs"
    by (auto dest: split_list_first)
  assume "grouped (map f l)"
  with l have "grouped (map f xs @ map f ys)"
    using grouped_delete [of "map f xs" "f m" "map f ys"] by simp
  with l \<open>m \<notin> set xs\<close> show ?thesis by (simp add: remove1_append)
next
  case False
  assume "grouped (map f l)"
  with False show ?thesis by (simp add: remove1_idem)
qed

lemma grouped_after_run:
  "grouped (xs @ b # c # ys) \<Longrightarrow> c \<noteq> b \<Longrightarrow> b \<notin> set (c # ys)"
  using grouped_append_right [of xs "b # c # ys"] by auto

subsection \<open>The first node of a cell\<close>

lemma bucket_head_Nil [simp]: "bucket_head b [] = None"
  by (simp add: bucket_head_def)

lemma bucket_head_Cons [simp]:
  "bucket_head b (n # l) = (if entry_id (snd n) = b then Some (fst n) else bucket_head b l)"
  by (simp add: bucket_head_def)

lemma bucket_head_append:
  "bucket_head b (xs @ ys) =
     (case bucket_head b xs of None \<Rightarrow> bucket_head b ys | Some p \<Rightarrow> Some p)"
  by (induction xs) auto

lemma bucket_head_None: "bucket_head b l = None \<longleftrightarrow> (\<forall>n\<in>set l. entry_id (snd n) \<noteq> b)"
  by (induction l) auto

lemma bucket_head_split:
  assumes "distinct (map fst l)" and "bucket_head bin l = Some p"
  shows "\<exists>pre h post. l = pre @ h # post \<and> fst h = p \<and> entry_id (snd h) = bin \<and>
           (\<forall>n\<in>set pre. entry_id (snd n) \<noteq> bin) \<and>
           tListIterator_Set p l = Inr (pre, h # post)"
  using assms
proof (induction l)
  case Nil
  then show ?case by simp
next
  case (Cons n l)
  show ?case
  proof (cases "entry_id (snd n) = bin")
    case True
    with Cons.prems have "fst n = p" by simp
    with True have "n # l = [] @ n # l \<and> fst n = p \<and> entry_id (snd n) = bin \<and>
        (\<forall>m\<in>set []. entry_id (snd m) \<noteq> bin) \<and>
        tListIterator_Set p (n # l) = Inr ([], n # l)"
      by (simp add: tListIterator_Set_def)
    then show ?thesis by blast
  next
    case False
    with Cons.prems have "distinct (map fst l)" and "bucket_head bin l = Some p"
      by simp_all
    from Cons.IH [OF this] obtain pre h post where
      l: "l = pre @ h # post" and h: "fst h = p" "entry_id (snd h) = bin" and
      pre: "\<forall>m\<in>set pre. entry_id (snd m) \<noteq> bin" and
      s: "tListIterator_Set p l = Inr (pre, h # post)"
      by blast
    from l h have "p \<in> fst ` set l" by force
    with Cons.prems(1) have "fst n \<noteq> p" by auto
    with s have "tListIterator_Set p (n # l) = Inr (n # pre, h # post)"
      by (auto simp: tListIterator_Set_def split: if_splits)
    with l h pre False have "n # l = (n # pre) @ h # post \<and> fst h = p \<and>
        entry_id (snd h) = bin \<and> (\<forall>m\<in>set (n # pre). entry_id (snd m) \<noteq> bin) \<and>
        tListIterator_Set p (n # l) = Inr (n # pre, h # post)"
      by simp
    then show ?thesis by blast
  qed
qed

lemma find_remove1_not: "\<not> P m \<Longrightarrow> List.find P (remove1 m l) = List.find P l"
  by (induction l) auto

lemma find_remove1_other:
  "List.find P l = Some h \<Longrightarrow> h \<noteq> m \<Longrightarrow> List.find P (remove1 m l) = Some h"
  by (induction l) (auto split: if_splits)

lemma cells_nth:
  "0 \<le> bin \<Longrightarrow> bin < ts \<Longrightarrow>
   map (\<lambda>b. bucket_head (int b) l) [0..<nat ts] ! nat bin = bucket_head bin l"
  by simp

lemma cells_update:
  assumes "\<And>b. 0 \<le> b \<Longrightarrow> b < ts \<Longrightarrow> b \<noteq> bin \<Longrightarrow> bucket_head b l' = bucket_head b l"
    and "bucket_head bin l' = c" and "0 \<le> bin"
  shows "(map (\<lambda>b. bucket_head (int b) l) [0..<nat ts])[nat bin := c] =
         map (\<lambda>b. bucket_head (int b) l') [0..<nat ts]"
proof (rule nth_equalityI)
  show "length ((map (\<lambda>b. bucket_head (int b) l) [0..<nat ts])[nat bin := c]) =
        length (map (\<lambda>b. bucket_head (int b) l') [0..<nat ts])"
    by simp
next
  fix i
  assume "i < length ((map (\<lambda>b. bucket_head (int b) l) [0..<nat ts])[nat bin := c])"
  then have i: "i < nat ts" by simp
  show "(map (\<lambda>b. bucket_head (int b) l) [0..<nat ts])[nat bin := c] ! i =
        map (\<lambda>b. bucket_head (int b) l') [0..<nat ts] ! i"
  proof (cases "i = nat bin")
    case True
    with i assms(2,3) show ?thesis by simp
  next
    case False
    with i have "int i \<noteq> bin" by auto
    with i assms(1) [of "int i"] False show ?thesis by simp
  qed
qed

section \<open>Linking an entry in\<close>

lemma structure_ok_cells:
  "structure_ok H ts l cells nn \<Longrightarrow> 0 \<le> bin \<Longrightarrow> bin < ts \<Longrightarrow>
   tArray_get cells bin = Inr (bucket_head bin l)"
  by (simp add: structure_ok_def tArray_get_def)

lemma structure_ok_get:
  "structure_ok H ts l cells nn \<Longrightarrow> tArray_get cells bin = Inr cell \<Longrightarrow>
   0 \<le> bin \<and> bin < ts \<and> cell = bucket_head bin l"
  by (auto simp: structure_ok_def tArray_get_def split: if_splits)

text \<open>Where \<^verbatim>\<open>Insert\<close> puts the node: at the tail, or before the first node of the cell.\<close>

lemma Insert_place:
  assumes "distinct (map fst l)"
  shows "tList_Insert (bucket_head bin l) x l =
     Inr (takeWhile (\<lambda>n. entry_id (snd n) \<noteq> bin) l @ x #
          dropWhile (\<lambda>n. entry_id (snd n) \<noteq> bin) l)"
proof (cases "bucket_head bin l")
  case None
  then have "\<forall>n\<in>set l. entry_id (snd n) \<noteq> bin"
    by (simp add: bucket_head_None)
  then have tw: "takeWhile (\<lambda>n. entry_id (snd n) \<noteq> bin) l = l"
    and dw: "dropWhile (\<lambda>n. entry_id (snd n) \<noteq> bin) l = []"
    by (simp_all add: takeWhile_eq_all_conv dropWhile_eq_Nil_conv)
  show ?thesis by (simp only: tw dw None tList_Insert_def option.case)
next
  case (Some p)
  from bucket_head_split [OF assms Some] obtain pre h post where
    l: "l = pre @ h # post" and h: "entry_id (snd h) = bin" and
    pre: "\<forall>n\<in>set pre. entry_id (snd n) \<noteq> bin" and
    s: "tListIterator_Set p l = Inr (pre, h # post)"
    by blast
  from l h pre have "takeWhile (\<lambda>n. entry_id (snd n) \<noteq> bin) l = pre"
    and "dropWhile (\<lambda>n. entry_id (snd n) \<noteq> bin) l = h # post"
    by simp_all
  with Some s show ?thesis by (simp add: tList_Insert_def)
qed

lemma grouped_insert:
  assumes "grouped (map f l)"
  shows "grouped (map f (takeWhile (\<lambda>n. f n \<noteq> b) l) @ b # map f (dropWhile (\<lambda>n. f n \<noteq> b) l))"
proof (cases "dropWhile (\<lambda>n. f n \<noteq> b) l")
  case Nil
  then have all: "\<forall>n\<in>set l. f n \<noteq> b"
    by (simp add: dropWhile_eq_Nil_conv)
  then have tw: "takeWhile (\<lambda>n. f n \<noteq> b) l = l"
    by (simp add: takeWhile_eq_all_conv)
  from all have "b \<notin> set (map f l)" by auto
  with assms have "grouped (map f l @ [b])" by (rule grouped_snoc)
  then show ?thesis by (simp only: tw Nil list.map)
next
  case (Cons h post)
  then have fh: "f h = b"
    using hd_dropWhile [of "\<lambda>n. f n \<noteq> b" l] by auto
  have "b \<notin> set (map f (takeWhile (\<lambda>n. f n \<noteq> b) l))"
    by (auto dest: set_takeWhileD)
  moreover have "map f l = map f (takeWhile (\<lambda>n. f n \<noteq> b) l) @ b # map f post"
    using Cons fh takeWhile_dropWhile_id [of "\<lambda>n. f n \<noteq> b" l]
    by (metis list.simps(9) map_append)
  ultimately have "grouped (map f (takeWhile (\<lambda>n. f n \<noteq> b) l) @ b # b # map f post)"
    using assms grouped_double by metis
  with Cons fh show ?thesis by simp
qed

lemma bucket_head_insert_same:
  "entry_id (snd x) = bin \<Longrightarrow>
   bucket_head bin (takeWhile (\<lambda>n. entry_id (snd n) \<noteq> bin) l @ x #
                    dropWhile (\<lambda>n. entry_id (snd n) \<noteq> bin) l) = Some (fst x)"
  by (induction l) auto

lemma bucket_head_insert_other:
  "entry_id (snd x) = bin \<Longrightarrow> b \<noteq> bin \<Longrightarrow>
   bucket_head b (takeWhile (\<lambda>n. entry_id (snd n) \<noteq> bin) l @ x #
                  dropWhile (\<lambda>n. entry_id (snd n) \<noteq> bin) l) = bucket_head b l"
  by (induction l) auto

lemma set_insert_place:
  "set (takeWhile P l @ x # dropWhile P l) = insert x (set l)"
proof -
  have "set (takeWhile P l @ x # dropWhile P l) = insert x (set (takeWhile P l @ dropWhile P l))"
    by (simp only: set_append set_simps) auto
  then show ?thesis by simp
qed

lemma distinct_insert_place:
  "distinct (map f l) \<Longrightarrow> f x \<notin> f ` set l \<Longrightarrow>
   distinct (map f (takeWhile P l @ x # dropWhile P l))"
proof -
  assume d: "distinct (map f l)" and x: "f x \<notin> f ` set l"
  have "map f l = map f (takeWhile P l) @ map f (dropWhile P l)"
    by (simp add: map_append [symmetric] del: map_append)
  with d have "distinct (map f (takeWhile P l) @ map f (dropWhile P l))" by simp
  moreover from x have "f x \<notin> f ` set (takeWhile P l)" "f x \<notin> f ` set (dropWhile P l)"
    by (auto dest: set_takeWhileD set_dropWhileD)
  ultimately show ?thesis by auto
qed

lemma structure_ok_Insert:
  assumes ok: "structure_ok H ts l cells nn"
    and get: "tArray_get cells bin = Inr cell"
    and ins: "tList_Insert cell (nn, e) l = Inr l'"
    and hash: "H (key e) ts = Inr bin" and id: "entry_id e = bin"
  shows "structure_ok H ts l' (cells[nat bin := Some nn]) (Suc nn)"
    and "l' = takeWhile (\<lambda>n. entry_id (snd n) \<noteq> bin) l @ (nn, e) #
              dropWhile (\<lambda>n. entry_id (snd n) \<noteq> bin) l"
proof -
  from structure_ok_get [OF ok get] have bin: "0 \<le> bin" "bin < ts"
    and cell: "cell = bucket_head bin l" by simp_all
  from ok have d: "distinct (map fst l)" and fresh: "\<forall>n\<in>set l. fst n < nn"
    and cells: "cells = map (\<lambda>b. bucket_head (int b) l) [0..<nat ts]"
    and ent: "\<forall>n\<in>set l. H (key (snd n)) ts = Inr (entry_id (snd n)) \<and>
                0 \<le> entry_id (snd n) \<and> entry_id (snd n) < ts"
    and g: "grouped (map (\<lambda>n. entry_id (snd n)) l)" and ts: "ts < 2 ^ 31"
    by (simp_all add: structure_ok_def)
  from ins cell Insert_place [OF d, of bin "(nn, e)"]
  show l': "l' = takeWhile (\<lambda>n. entry_id (snd n) \<noteq> bin) l @ (nn, e) #
              dropWhile (\<lambda>n. entry_id (snd n) \<noteq> bin) l"
    by simp
  have set_l': "set l' = insert (nn, e) (set l)"
    unfolding l' by (rule set_insert_place)
  from fresh have "nn \<notin> fst ` set l" by auto
  then have d': "distinct (map fst l')"
    unfolding l' using d by (intro distinct_insert_place) simp_all
  have c': "cells[nat bin := Some nn] = map (\<lambda>b. bucket_head (int b) l') [0..<nat ts]"
    unfolding cells l'
    by (rule cells_update)
       (simp_all add: bucket_head_insert_same bucket_head_insert_other id bin)
  have g': "grouped (map (\<lambda>n. entry_id (snd n)) l')"
    unfolding l' using grouped_insert [OF g, of bin] id by simp
  from fresh set_l' have f': "\<forall>n\<in>set l'. fst n < Suc nn" by auto
  from ent set_l' hash id bin
  have e': "\<forall>n\<in>set l'. H (key (snd n)) ts = Inr (entry_id (snd n)) \<and>
                0 \<le> entry_id (snd n) \<and> entry_id (snd n) < ts"
    by auto
  from ts c' d' f' e' g' show "structure_ok H ts l' (cells[nat bin := Some nn]) (Suc nn)"
    by (simp add: structure_ok_def)
qed

lemma Insert_total:
  assumes "structure_ok H ts l cells nn" and "0 \<le> bin" and "bin < ts"
  shows "tArray_get cells bin = Inr (bucket_head bin l)"
    and "tList_Insert (bucket_head bin l) x l =
         Inr (takeWhile (\<lambda>n. entry_id (snd n) \<noteq> bin) l @ x #
              dropWhile (\<lambda>n. entry_id (snd n) \<noteq> bin) l)"
  using assms structure_ok_cells [OF assms] Insert_place [of l bin x]
  by (simp_all add: structure_ok_def)

section \<open>Add\<close>

lemma length_insert_place: "length (takeWhile P l @ x # dropWhile P l) = Suc (length l)"
proof -
  have "length l = length (takeWhile P l @ dropWhile P l)" by simp
  then show ?thesis by (simp only: length_append list.size)
qed

lemma Add_eq:
  assumes ok: "table_ok H t" and hash: "H k (table_size t) = Inr bin"
    and bin: "0 \<le> bin" "bin < table_size t"
  shows "Add H k d t =
     Inr (t\<lparr>entry_list :=
              takeWhile (\<lambda>n. entry_id (snd n) \<noteq> bin) (entry_list t) @
              (next_node t, \<lparr>key = k, entry_id = bin, data = d\<rparr>) #
              dropWhile (\<lambda>n. entry_id (snd n) \<noteq> bin) (entry_list t),
            cell_array := (cell_array t)[nat bin := Some (next_node t)],
            next_node := Suc (next_node t),
            entry_count := entry_count t + 1\<rparr>)"
proof -
  from ok have s: "structure_ok H (table_size t) (entry_list t) (cell_array t) (next_node t)"
    by (simp add: table_ok_def)
  show ?thesis
    by (simp add: Add_def hash Insert_total [OF s bin])
qed

lemma Add_table_ok:
  assumes ok: "table_ok H t" and add: "Add H k d t = Inr t'"
  shows "table_ok H t'"
proof -
  from ok have s: "structure_ok H (table_size t) (entry_list t) (cell_array t) (next_node t)"
    and c: "entry_count t = int (length (entry_list t))"
    by (simp_all add: table_ok_def)
  from add obtain bin cell l' where hash: "H k (table_size t) = Inr bin"
    and get: "tArray_get (cell_array t) bin = Inr cell"
    and ins: "tList_Insert cell (next_node t, \<lparr>key = k, entry_id = bin, data = d\<rparr>)
                (entry_list t) = Inr l'"
    and t': "t' = t\<lparr>entry_list := l',
                     cell_array := (cell_array t)[nat bin := Some (next_node t)],
                     next_node := Suc (next_node t),
                     entry_count := entry_count t + 1\<rparr>"
    by (auto simp: Add_def split: sum.splits)
  from structure_ok_Insert [OF s get ins] hash
  have "structure_ok H (table_size t) l' ((cell_array t)[nat bin := Some (next_node t)])
          (Suc (next_node t))"
    and "length l' = Suc (length (entry_list t))"
    by (simp_all only: length_insert_place tHashEntry.simps)
  with c t' show ?thesis by (simp add: table_ok_def)
qed

section \<open>FindEntry\<close>

lemma FindEntry_loop_find:
  "bin \<notin> set (dropWhile (\<lambda>y. y = bin) (map (\<lambda>n. entry_id (snd n)) ns)) \<Longrightarrow>
   \<forall>n\<in>set ns. key (snd n) = k \<longrightarrow> entry_id (snd n) = bin \<Longrightarrow>
   FindEntry_loop bin k ns = List.find (\<lambda>n. key (snd n) = k) ns"
proof (induction ns)
  case Nil
  then show ?case by simp
next
  case (Cons n ns)
  show ?case
  proof (cases "entry_id (snd n) = bin")
    case True
    with Cons show ?thesis by simp
  next
    case False
    with Cons.prems have "\<forall>m\<in>set (n # ns). entry_id (snd m) \<noteq> bin" by auto
    with Cons.prems(2) have "\<forall>m\<in>set (n # ns). key (snd m) \<noteq> k" by blast
    then have "List.find (\<lambda>n. key (snd n) = k) (n # ns) = None"
      by (simp only: find_None_iff) blast
    with False show ?thesis by simp
  qed
qed

lemma find_append_none:
  "\<forall>n\<in>set xs. \<not> P n \<Longrightarrow> List.find P (xs @ ys) = List.find P ys"
  by (induction xs) auto

text \<open>Under the invariant, \<^verbatim>\<open>FindEntry\<close> returns the first node of the list with the key.\<close>

lemma FindEntry_eq:
  assumes ok: "table_ok H t" and hash: "H k (table_size t) = Inr bin"
    and bin: "0 \<le> bin" "bin < table_size t"
  shows "FindEntry H k t = Inr (List.find (\<lambda>n. key (snd n) = k) (entry_list t))"
proof -
  let ?l = "entry_list t"
  from ok have s: "structure_ok H (table_size t) ?l (cell_array t) (next_node t)"
    by (simp add: table_ok_def)
  then have d: "distinct (map fst ?l)"
    and ent: "\<forall>n\<in>set ?l. H (key (snd n)) (table_size t) = Inr (entry_id (snd n))"
    and g: "grouped (map (\<lambda>n. entry_id (snd n)) ?l)"
    by (simp_all add: structure_ok_def)
  from ent hash have kb: "\<forall>n\<in>set ?l. key (snd n) = k \<longrightarrow> entry_id (snd n) = bin"
    by auto
  have get: "tArray_get (cell_array t) bin = Inr (bucket_head bin ?l)"
    by (rule structure_ok_cells [OF s bin])
  show ?thesis
  proof (cases "bucket_head bin ?l")
    case None
    with kb have "\<forall>n\<in>set ?l. key (snd n) \<noteq> k"
      by (auto simp: bucket_head_None)
    then have "List.find (\<lambda>n. key (snd n) = k) ?l = None"
      by (simp only: find_None_iff) blast
    with None show ?thesis by (simp add: FindEntry_def hash get)
  next
    case (Some p)
    from bucket_head_split [OF d Some] obtain pre h post where
      l: "?l = pre @ h # post" and h: "entry_id (snd h) = bin" and
      pre: "\<forall>n\<in>set pre. entry_id (snd n) \<noteq> bin" and
      set: "tListIterator_Set p ?l = Inr (pre, h # post)"
      by blast
    from g l have "grouped (map (\<lambda>n. entry_id (snd n)) pre @
        map (\<lambda>n. entry_id (snd n)) (h # post))"
      by simp
    then have "grouped (map (\<lambda>n. entry_id (snd n)) (h # post))"
      by (rule grouped_append_right)
    with h have "bin \<notin> set (dropWhile (\<lambda>y. y = bin) (map (\<lambda>n. entry_id (snd n)) (h # post)))"
      by simp
    moreover from kb l have "\<forall>n\<in>set (h # post). key (snd n) = k \<longrightarrow> entry_id (snd n) = bin"
      by simp
    ultimately have "FindEntry_loop bin k (h # post) = List.find (\<lambda>n. key (snd n) = k) (h # post)"
      by (rule FindEntry_loop_find)
    moreover from kb pre l have "\<forall>n\<in>set pre. \<not> key (snd n) = k" by auto
    then have "List.find (\<lambda>n. key (snd n) = k) (pre @ h # post) =
               List.find (\<lambda>n. key (snd n) = k) (h # post)"
      by (rule find_append_none)
    ultimately show ?thesis
      using Some set l by (simp add: FindEntry_def hash get)
  qed
qed

lemma FindEntry_Inr_hash:
  assumes ok: "table_ok H t" and "FindEntry H k t = Inr r"
  shows "\<exists>bin. H k (table_size t) = Inr bin \<and> 0 \<le> bin \<and> bin < table_size t"
proof -
  from ok have s: "structure_ok H (table_size t) (entry_list t) (cell_array t) (next_node t)"
    by (simp add: table_ok_def)
  from assms(2) obtain bin cell where "H k (table_size t) = Inr bin"
    and "tArray_get (cell_array t) bin = Inr cell"
    by (auto simp: FindEntry_def split: sum.splits)
  with structure_ok_get [OF s] show ?thesis by blast
qed

section \<open>Remove\<close>

lemma Remove_loop_find:
  "bin \<notin> set (dropWhile (\<lambda>y. y = bin) (map (\<lambda>n. entry_id (snd n)) ns)) \<Longrightarrow>
   \<forall>n\<in>set ns. key (snd n) = k \<longrightarrow> entry_id (snd n) = bin \<Longrightarrow>
   Remove_loop bin k ns =
     (case List.find (\<lambda>n. key (snd n) = k) ns of
        None \<Rightarrow> (None, ns)
      | Some m \<Rightarrow> (Some (data (snd m)), remove1 m ns))"
proof (induction ns)
  case Nil
  then show ?case by simp
next
  case (Cons n ns)
  show ?case
  proof (cases "entry_id (snd n) = bin")
    case True
    show ?thesis
    proof (cases "key (snd n) = k")
      case k: True
      with True show ?thesis by simp
    next
      case k: False
      from Cons.prems True
      have "Remove_loop bin k ns =
        (case List.find (\<lambda>n. key (snd n) = k) ns of
           None \<Rightarrow> (None, ns)
         | Some m \<Rightarrow> (Some (data (snd m)), remove1 m ns))"
        by (intro Cons.IH) simp_all
      moreover have "\<And>m. List.find (\<lambda>n. key (snd n) = k) ns = Some m \<Longrightarrow> n \<noteq> m"
        using k by (auto simp: find_Some_iff)
      ultimately show ?thesis
        using True k by (auto split: option.splits)
    qed
  next
    case False
    with Cons.prems have "\<forall>m\<in>set (n # ns). entry_id (snd m) \<noteq> bin" by auto
    with Cons.prems(2) have "\<forall>m\<in>set (n # ns). key (snd m) \<noteq> k" by blast
    then have "List.find (\<lambda>n. key (snd n) = k) (n # ns) = None"
      by (simp only: find_None_iff) blast
    with False show ?thesis by simp
  qed
qed

lemma bucket_head_remove1_other:
  "entry_id (snd m) \<noteq> b \<Longrightarrow> bucket_head b (remove1 m l) = bucket_head b l"
  by (simp add: bucket_head_def find_remove1_not)

lemma bucket_head_remove1_later:
  "bucket_head b l = Some p \<Longrightarrow> fst m \<noteq> p \<Longrightarrow> bucket_head b (remove1 m l) = Some p"
  by (induction l) (auto split: if_splits)

lemma distinct_map_remove1: "distinct (map f l) \<Longrightarrow> distinct (map f (remove1 m l))"
proof (induction l)
  case Nil
  then show ?case by simp
next
  case (Cons n l)
  have "f ` set (remove1 m l) \<subseteq> f ` set l"
    using set_remove1_subset [of m l] by blast
  with Cons show ?case by auto
qed

lemma structure_ok_remove1:
  assumes ok: "structure_ok H ts l cells nn"
    and cells': "cells' = map (\<lambda>b. bucket_head (int b) (remove1 m l)) [0..<nat ts]"
  shows "structure_ok H ts (remove1 m l) cells' nn"
proof -
  from ok have "distinct (map fst (remove1 m l))"
    by (simp add: structure_ok_def distinct_map_remove1) 
  moreover have sub: "\<And>n. n \<in> set (remove1 m l) \<Longrightarrow> n \<in> set l"
    using set_remove1_subset [of m l] by blast
  from ok have "\<forall>n\<in>set l. fst n < nn" by (simp add: structure_ok_def)
  with sub have "\<forall>n\<in>set (remove1 m l). fst n < nn" by blast
  moreover from ok have "\<forall>n\<in>set l. H (key (snd n)) ts = Inr (entry_id (snd n)) \<and>
      0 \<le> entry_id (snd n) \<and> entry_id (snd n) < ts"
    by (simp add: structure_ok_def)
  with sub have "\<forall>n\<in>set (remove1 m l). H (key (snd n)) ts = Inr (entry_id (snd n)) \<and>
      0 \<le> entry_id (snd n) \<and> entry_id (snd n) < ts"
    by blast
  moreover from ok have "grouped (map (\<lambda>n. entry_id (snd n)) (remove1 m l))"
    by (simp add: structure_ok_def grouped_remove1)
  moreover from ok have "ts < 2 ^ 31"
    by (simp add: structure_ok_def)
  ultimately show ?thesis
    using cells' by (simp add: structure_ok_def)
qed

text \<open>What \<^verbatim>\<open>Remove\<close> does under the invariant, by what the cell and the list hold.\<close>

lemma Remove_empty_cell:
  assumes ok: "table_ok H t" and hash: "H k (table_size t) = Inr bin"
    and bin: "0 \<le> bin" "bin < table_size t"
    and none: "bucket_head bin (entry_list t) = None"
  shows "Remove H k t = Inl AssertionFailure"
proof -
  from ok have s: "structure_ok H (table_size t) (entry_list t) (cell_array t) (next_node t)"
    by (simp add: table_ok_def)
  show ?thesis
    by (simp add: Remove_def hash structure_ok_cells [OF s bin] none)
qed

lemma Remove_cases:
  assumes ok: "table_ok H t" and hash: "H k (table_size t) = Inr bin"
    and bin: "0 \<le> bin" "bin < table_size t"
    and some: "bucket_head bin (entry_list t) = Some p"
  shows "case List.find (\<lambda>n. key (snd n) = k) (entry_list t) of
           None \<Rightarrow> Remove H k t = Inr (None, t)
         | Some m \<Rightarrow>
             (\<exists>t'. Remove H k t = Inr (Some (data (snd m)), t') \<and>
                   entry_list t' = remove1 m (entry_list t) \<and> table_ok H t' \<and>
                   table_size t' = table_size t \<and> next_node t' = next_node t)"
proof -
  let ?l = "entry_list t" and ?ts = "table_size t"
  let ?id = "\<lambda>n. entry_id (snd n)"
  from ok have s: "structure_ok H ?ts ?l (cell_array t) (next_node t)"
    and cnt: "entry_count t = int (length ?l)"
    by (simp_all add: table_ok_def)
  then have d: "distinct (map fst ?l)"
    and ent: "\<forall>n\<in>set ?l. H (key (snd n)) ?ts = Inr (?id n)"
    and g: "grouped (map ?id ?l)"
    and cells: "cell_array t = map (\<lambda>b. bucket_head (int b) ?l) [0..<nat ?ts]"
    by (simp_all add: structure_ok_def)
  from ent hash have kb: "\<forall>n\<in>set ?l. key (snd n) = k \<longrightarrow> ?id n = bin"
    by auto
  have get: "tArray_get (cell_array t) bin = Inr (Some p)"
    using structure_ok_cells [OF s bin] some by simp
  from bucket_head_split [OF d some] obtain pre h post where
    l: "?l = pre @ h # post" and h: "?id h = bin" and hp: "fst h = p" and
    pre: "\<forall>n\<in>set pre. ?id n \<noteq> bin" and
    set: "tListIterator_Set p ?l = Inr (pre, h # post)"
    by blast
  from kb pre l have prek: "\<forall>n\<in>set pre. \<not> key (snd n) = k" by auto
  then have find_l: "List.find (\<lambda>n. key (snd n) = k) ?l =
      List.find (\<lambda>n. key (snd n) = k) (h # post)"
    unfolding l by (rule find_append_none)
  from pre h have h_pre: "h \<notin> set pre" by auto
  show ?thesis
  proof (cases "key (snd h) = k")
    case True
    let ?c = "case post of [] \<Rightarrow> None
              | m # ms \<Rightarrow> if ?id m = bin then Some (fst m) else None"
    let ?t' = "t\<lparr>entry_list := pre @ post, entry_count := entry_count t - 1,
                 cell_array := (cell_array t)[nat bin := ?c]\<rparr>"
    from True find_l have f: "List.find (\<lambda>n. key (snd n) = k) ?l = Some h" by simp
    have rm: "remove1 h ?l = pre @ post"
      unfolding l using h_pre by (simp add: remove1_append)
    have r: "Remove H k t = Inr (Some (data (snd h)), ?t')"
      using True by (simp add: Remove_def hash get set)
    have head: "bucket_head bin (pre @ post) = ?c"
    proof (cases post)
      case Nil
      with pre show ?thesis by (simp add: bucket_head_None)
    next
      case (Cons m ms)
      show ?thesis
      proof (cases "?id m = bin")
        case True
        with Cons pre show ?thesis
          by (simp add: bucket_head_append bucket_head_None [THEN iffD2])
      next
        case False
        from g l Cons h have "grouped (map ?id pre @ bin # ?id m # map ?id ms)" by simp
        from grouped_after_run [OF this] False
        have "bin \<notin> set (?id m # map ?id ms)" by simp
        with Cons have "\<forall>n\<in>set post. ?id n \<noteq> bin" by auto
        with pre have "\<forall>n\<in>set (pre @ post). ?id n \<noteq> bin" by auto
        then have "bucket_head bin (pre @ post) = None"
          by (simp only: bucket_head_None)
        with Cons False show ?thesis by simp
      qed
    qed
    have other: "\<And>b. b \<noteq> bin \<Longrightarrow> bucket_head b (pre @ post) = bucket_head b ?l"
      unfolding l using h by (auto simp: bucket_head_append split: option.splits)
    have "(cell_array t)[nat bin := ?c] =
          map (\<lambda>b. bucket_head (int b) (pre @ post)) [0..<nat ?ts]"
      unfolding cells by (rule cells_update) (simp_all add: other head bin)
    with rm have "(cell_array t)[nat bin := ?c] =
        map (\<lambda>b. bucket_head (int b) (remove1 h ?l)) [0..<nat ?ts]"
      by simp
    from structure_ok_remove1 [OF s this] rm
    have "structure_ok H ?ts (pre @ post) ((cell_array t)[nat bin := ?c]) (next_node t)"
      by simp
    moreover from cnt l have "entry_count t - 1 = int (length (pre @ post))" by simp
    ultimately have "table_ok H ?t'" by (simp add: table_ok_def)
    with r rm f show ?thesis by simp
  next
    case False
    from g l have "grouped (map ?id pre @ map ?id (h # post))" by simp
    then have "grouped (map ?id (h # post))" by (rule grouped_append_right)
    with h have run: "bin \<notin> set (dropWhile (\<lambda>y. y = bin) (map ?id post))" by simp
    from kb l have "\<forall>n\<in>set post. key (snd n) = k \<longrightarrow> ?id n = bin" by simp
    with run have loop: "Remove_loop bin k post =
       (case List.find (\<lambda>n. key (snd n) = k) post of
          None \<Rightarrow> (None, post)
        | Some m \<Rightarrow> (Some (data (snd m)), remove1 m post))"
      by (rule Remove_loop_find)
    from False find_l have f: "List.find (\<lambda>n. key (snd n) = k) ?l =
        List.find (\<lambda>n. key (snd n) = k) post"
      by simp
    show ?thesis
    proof (cases "List.find (\<lambda>n. key (snd n) = k) post")
      case None
      with loop have "Remove H k t = Inr (None, t\<lparr>entry_list := pre @ h # post\<rparr>)"
        using False by (simp add: Remove_def hash get set)
      with l [symmetric] None f show ?thesis by simp
    next
      case (Some m)
      let ?t' = "t\<lparr>entry_list := pre @ h # remove1 m post, entry_count := entry_count t - 1\<rparr>"
      from Some have mk: "key (snd m) = k" and m_post: "m \<in> set post"
        by (auto simp: find_Some_iff)
      with prek False have m_pre: "m \<notin> set pre" and m_h: "m \<noteq> h" by auto
      from m_post l have m_l: "m \<in> set ?l" by simp
      from m_pre m_h have rm: "remove1 m ?l = pre @ h # remove1 m post"
        unfolding l by (simp add: remove1_append)
      from loop Some have r: "Remove H k t = Inr (Some (data (snd m)), ?t')"
        using False by (simp add: Remove_def hash get set)
      from m_l mk kb have mid: "?id m = bin" by simp
      from d l have "fst h \<notin> fst ` set post" by simp
      with m_post have "fst m \<noteq> fst h" by (metis imageI)
      with hp have mp: "fst m \<noteq> p" by simp
      have "\<And>b. bucket_head b (remove1 m ?l) = bucket_head b ?l"
      proof -
        fix b
        show "bucket_head b (remove1 m ?l) = bucket_head b ?l"
        proof (cases "b = bin")
          case True
          with some mp show ?thesis by (simp add: bucket_head_remove1_later)
        next
          case False
          with mid show ?thesis by (simp add: bucket_head_remove1_other)
        qed
      qed
      with cells have "cell_array t = map (\<lambda>b. bucket_head (int b) (remove1 m ?l)) [0..<nat ?ts]"
        by simp
      from structure_ok_remove1 [OF s this] rm
      have "structure_ok H ?ts (pre @ h # remove1 m post) (cell_array t) (next_node t)"
        by simp
      moreover from cnt m_l have "entry_count t - 1 = int (length (remove1 m ?l))"
        by (cases "entry_list t") (simp_all add: length_remove1 del: remove1.simps)
      ultimately have "table_ok H ?t'" using rm by (simp add: table_ok_def)
      with r rm f Some show ?thesis by simp
    qed
  qed
qed

lemma Remove_table_ok:
  assumes ok: "table_ok H t" and rem: "Remove H k t = Inr (r, t')"
  shows "table_ok H t'"
proof -
  from ok have s: "structure_ok H (table_size t) (entry_list t) (cell_array t) (next_node t)"
    by (simp add: table_ok_def)
  from rem obtain bin cell where hash: "H k (table_size t) = Inr bin"
    and get: "tArray_get (cell_array t) bin = Inr cell"
    by (auto simp: Remove_def split: sum.splits)
  from structure_ok_get [OF s get] have bin: "0 \<le> bin" "bin < table_size t"
    and cell: "cell = bucket_head bin (entry_list t)"
    by simp_all
  show ?thesis
  proof (cases "bucket_head bin (entry_list t)")
    case None
    from Remove_empty_cell [OF ok hash bin None] rem show ?thesis by simp
  next
    case (Some p)
    from Remove_cases [OF ok hash bin Some] rem ok show ?thesis
      by (auto split: option.splits)
  qed
qed

section \<open>SetValue\<close>

lemma bucket_head_set_data:
  "bucket_head b (map (\<lambda>n. if fst n = p then (fst n, (snd n)\<lparr>data := d\<rparr>) else n) l) =
   bucket_head b l"
  by (induction l) auto

lemma structure_ok_set_data:
  assumes "structure_ok H ts l cells nn"
  shows "structure_ok H ts
           (map (\<lambda>n. if fst n = p then (fst n, (snd n)\<lparr>data := d\<rparr>) else n) l) cells nn"
proof -
  let ?f = "\<lambda>n. if fst n = p then (fst n, (snd n)\<lparr>data := d\<rparr>) else n"
  have 1: "map fst (map ?f l) = map fst l" by simp
  have 2: "map (\<lambda>n. entry_id (snd n)) (map ?f l) = map (\<lambda>n. entry_id (snd n)) l" by simp
  from assms show ?thesis
    unfolding structure_ok_def
    by (simp only: 1 2 bucket_head_set_data) auto
qed

lemma SetValue_eq:
  assumes ok: "table_ok H t" and hash: "H k (table_size t) = Inr bin"
    and bin: "0 \<le> bin" "bin < table_size t"
  shows "SetValue H k d t =
     (case List.find (\<lambda>n. key (snd n) = k) (entry_list t) of
        None \<Rightarrow> Add H k d t
      | Some cur_entry \<Rightarrow>
          Inr (t\<lparr>entry_list :=
                   map (\<lambda>n. if fst n = fst cur_entry then (fst n, (snd n)\<lparr>data := d\<rparr>) else n)
                       (entry_list t)\<rparr>))"
  by (simp add: SetValue_def FindEntry_eq [OF assms])

lemma SetValue_table_ok:
  assumes ok: "table_ok H t" and sv: "SetValue H k d t = Inr t'"
  shows "table_ok H t'"
proof -
  from sv obtain r where f: "FindEntry H k t = Inr r"
    by (auto simp: SetValue_def split: sum.splits)
  show ?thesis
  proof (cases r)
    case None
    with f sv have "Add H k d t = Inr t'" by (simp add: SetValue_def)
    with ok show ?thesis by (rule Add_table_ok)
  next
    case (Some cur_entry)
    with f sv have "t' = t\<lparr>entry_list :=
        map (\<lambda>n. if fst n = fst cur_entry then (fst n, (snd n)\<lparr>data := d\<rparr>) else n)
            (entry_list t)\<rparr>"
      by (simp add: SetValue_def)
    with ok show ?thesis
      by (simp add: table_ok_def structure_ok_set_data)
  qed
qed

section \<open>SetTableSize\<close>

lemma structure_ok_empty:
  "ts < 2 ^ 31 \<Longrightarrow> structure_ok H ts [] (replicate (nat ts) None) nn"
  by (simp add: structure_ok_def map_replicate_const)

lemma SetTableSize_loop_ok:
  assumes "structure_ok H (table_size t) (entry_list t) (cell_array t) (next_node t)"
    and "SetTableSize_loop H backup_list t = Inr t'"
  shows "structure_ok H (table_size t') (entry_list t') (cell_array t') (next_node t') \<and>
         table_size t' = table_size t \<and> entry_count t' = entry_count t \<and>
         length (entry_list t') = length (entry_list t) + length backup_list \<and>
         mset (map (\<lambda>n. (key (snd n), data (snd n))) (entry_list t')) =
           mset (map (\<lambda>n. (key (snd n), data (snd n))) (entry_list t)) +
           mset (map (\<lambda>n. (key (snd n), data (snd n))) backup_list)"
  using assms
proof (induction backup_list arbitrary: t)
  case Nil
  then show ?case by simp
next
  case (Cons n backup_list)
  from Cons.prems(2) obtain bin cell l where hash: "H (key (snd n)) (table_size t) = Inr bin"
    and get: "tArray_get (cell_array t) bin = Inr cell"
    and ins: "tList_Insert cell (next_node t, (snd n)\<lparr>entry_id := bin\<rparr>) (entry_list t) = Inr l"
    and rest: "SetTableSize_loop H backup_list
                 (t\<lparr>entry_list := l,
                    cell_array := (cell_array t)[nat bin := Some (next_node t)],
                    next_node := Suc (next_node t)\<rparr>) = Inr t'"
    by (auto split: sum.splits)
  let ?t1 = "t\<lparr>entry_list := l,
                cell_array := (cell_array t)[nat bin := Some (next_node t)],
                next_node := Suc (next_node t)\<rparr>"
  from structure_ok_Insert [OF Cons.prems(1) get ins] hash
  have s1: "structure_ok H (table_size t) l ((cell_array t)[nat bin := Some (next_node t)])
              (Suc (next_node t))"
    and l: "l = takeWhile (\<lambda>m. entry_id (snd m) \<noteq> bin) (entry_list t) @
              (next_node t, (snd n)\<lparr>entry_id := bin\<rparr>) #
              dropWhile (\<lambda>m. entry_id (snd m) \<noteq> bin) (entry_list t)"
    by simp_all
  from s1 have "structure_ok H (table_size ?t1) (entry_list ?t1) (cell_array ?t1) (next_node ?t1)"
    by simp
  from Cons.IH [OF this rest]
  have ih: "structure_ok H (table_size t') (entry_list t') (cell_array t') (next_node t')"
    "table_size t' = table_size t" "entry_count t' = entry_count t"
    "length (entry_list t') = length l + length backup_list"
    "mset (map (\<lambda>n. (key (snd n), data (snd n))) (entry_list t')) =
       mset (map (\<lambda>n. (key (snd n), data (snd n))) l) +
       mset (map (\<lambda>n. (key (snd n), data (snd n))) backup_list)"
    by auto
  have len: "length l = Suc (length (entry_list t))"
    unfolding l by (rule length_insert_place)
  have "mset l = add_mset (next_node t, (snd n)\<lparr>entry_id := bin\<rparr>) (mset (entry_list t))"
  proof -
    have "mset (entry_list t) =
        mset (takeWhile (\<lambda>m. entry_id (snd m) \<noteq> bin) (entry_list t) @
              dropWhile (\<lambda>m. entry_id (snd m) \<noteq> bin) (entry_list t))"
      by simp
    then show ?thesis unfolding l by (simp only: mset_append mset.simps) simp
  qed
  then have "mset (map (\<lambda>n. (key (snd n), data (snd n))) l) =
      add_mset (key (snd n), data (snd n))
        (mset (map (\<lambda>n. (key (snd n), data (snd n))) (entry_list t)))"
    by (simp only: mset_map) simp
  with ih len show ?case by simp
qed

lemma SetTableSize_loop_total:
  assumes "hash_in_range H" and "0 < table_size t"
    and "structure_ok H (table_size t) (entry_list t) (cell_array t) (next_node t)"
  shows "\<exists>t'. SetTableSize_loop H backup_list t = Inr t'"
  using assms(2,3)
proof (induction backup_list arbitrary: t)
  case Nil
  then show ?case by simp
next
  case (Cons n backup_list)
  from Cons.prems(2) have ts: "table_size t < 2 ^ 31" by (simp add: structure_ok_def)
  with assms(1) Cons.prems(1) obtain bin where hash: "H (key (snd n)) (table_size t) = Inr bin"
    and bin: "0 \<le> bin" "bin < table_size t"
    unfolding hash_in_range_def by blast
  note tot = Insert_total [OF Cons.prems(2) bin]
  let ?l = "takeWhile (\<lambda>m. entry_id (snd m) \<noteq> bin) (entry_list t) @
              (next_node t, (snd n)\<lparr>entry_id := bin\<rparr>) #
              dropWhile (\<lambda>m. entry_id (snd m) \<noteq> bin) (entry_list t)"
  let ?t1 = "t\<lparr>entry_list := ?l,
                cell_array := (cell_array t)[nat bin := Some (next_node t)],
                next_node := Suc (next_node t)\<rparr>"
  from structure_ok_Insert(1) [OF Cons.prems(2) tot(1) tot(2)] hash
  have "structure_ok H (table_size ?t1) (entry_list ?t1) (cell_array ?t1) (next_node ?t1)"
    by simp
  moreover from Cons.prems(1) have "0 < table_size ?t1" by simp
  ultimately obtain t' where "SetTableSize_loop H backup_list ?t1 = Inr t'"
    using Cons.IH by blast
  then show ?case by (simp add: hash tot)
qed

lemma SetTableSize_table_ok:
  assumes ok: "table_ok H t" and sts: "SetTableSize H n t = Inr t'"
  shows "table_ok H t' \<and> table_size t' = sint n \<and>
         mset (map (\<lambda>n. (key (snd n), data (snd n))) (entry_list t')) =
         mset (map (\<lambda>n. (key (snd n), data (snd n))) (entry_list t))"
proof -
  let ?t0 = "t\<lparr>table_size := sint n, cell_array := replicate (nat (sint n)) None,
               entry_list := []\<rparr>"
  from sts have loop: "SetTableSize_loop H (entry_list t) ?t0 = Inr t'"
    by (auto simp: SetTableSize_def tArray_ResizeClear_def split: if_splits)
  have "sint n < 2 ^ 31" using sint_lt [of n] by simp
  then have "structure_ok H (table_size ?t0) (entry_list ?t0) (cell_array ?t0) (next_node ?t0)"
    by (simp add: structure_ok_empty)
  from SetTableSize_loop_ok [OF this loop] ok show ?thesis
    by (auto simp: table_ok_def)
qed

lemma tHashTable_new_table_ok: "tHashTable_new n = Inr t \<Longrightarrow> table_ok H t"
  using sint_lt [of n]
  by (auto simp: tHashTable_new_def tArray_ResizeClear_def table_ok_def structure_ok_empty
           split: if_splits)

lemma apply_operation_table_ok:
  "table_ok H t \<Longrightarrow> apply_operation H op t = Inr t' \<Longrightarrow> table_ok H t'"
proof (cases op)
  case (Op_Add k d)
  assume "table_ok H t" "apply_operation H op t = Inr t'"
  with Op_Add show ?thesis by (auto intro: Add_table_ok)
next
  case (Op_SetValue k d)
  assume "table_ok H t" "apply_operation H op t = Inr t'"
  with Op_SetValue show ?thesis by (auto intro: SetValue_table_ok)
next
  case (Op_Remove k)
  assume "table_ok H t" "apply_operation H op t = Inr t'"
  with Op_Remove show ?thesis by (auto split: sum.splits intro: Remove_table_ok)
next
  case (Op_SetTableSize n)
  assume "table_ok H t" "apply_operation H op t = Inr t'"
  with Op_SetTableSize show ?thesis by (auto dest: SetTableSize_table_ok)
qed

lemma run_operations_table_ok:
  "table_ok H t \<Longrightarrow> run_operations H ops t = Inr t' \<Longrightarrow> table_ok H t'"
proof (induction ops arbitrary: t)
  case Nil
  then show ?case by simp
next
  case (Cons op ops)
  from Cons.prems(2) obtain t1 where 1: "apply_operation H op t = Inr t1"
    and 2: "run_operations H ops t1 = Inr t'"
    by (auto split: sum.splits)
  from Cons.prems(1) 1 have "table_ok H t1" by (rule apply_operation_table_ok)
  then show ?case using 2 by (rule Cons.IH)
qed

section \<open>The invariant, as the four properties\<close>

lemma run_end:
  assumes "x \<notin> set (dropWhile (\<lambda>y. y = x) xs)" and "k < length xs" and "xs ! k = x"
    and "j \<le> k"
  shows "xs ! j = x"
proof -
  let ?n = "length (takeWhile (\<lambda>y. y = x) xs)"
  have "k < ?n"
  proof (rule ccontr)
    assume n: "\<not> k < ?n"
    have "length xs = ?n + length (dropWhile (\<lambda>y. y = x) xs)"
      by (metis length_append takeWhile_dropWhile_id)
    with n assms(2) have lt: "k - ?n < length (dropWhile (\<lambda>y. y = x) xs)" by simp
    from n have "xs ! k = dropWhile (\<lambda>y. y = x) xs ! (k - ?n)"
      by (simp add: dropWhile_nth [OF lt])
    with lt have "xs ! k \<in> set (dropWhile (\<lambda>y. y = x) xs)" by (metis nth_mem)
    with assms(1,3) show False by simp
  qed
  with assms(4) have "j < ?n" by simp
  then have "takeWhile (\<lambda>y. y = x) xs ! j \<in> set (takeWhile (\<lambda>y. y = x) xs)"
    by (rule nth_mem)
  with \<open>j < ?n\<close> show ?thesis by (auto simp: takeWhile_nth dest: set_takeWhileD)
qed

lemma grouped_nth:
  "grouped ids \<Longrightarrow> k < length ids \<Longrightarrow> j \<le> k \<Longrightarrow> i \<le> j \<Longrightarrow> ids ! i = ids ! k \<Longrightarrow>
   ids ! j = ids ! i"
proof (induction ids arbitrary: i j k)
  case Nil
  then show ?case by simp
next
  case (Cons x xs)
  show ?case
  proof (cases i)
    case 0
    show ?thesis
    proof (cases j)
      case j0: 0
      with 0 show ?thesis by simp
    next
      case (Suc j')
      with Cons.prems obtain k' where k: "k = Suc k'" by (cases k) auto
      with Cons.prems 0 Suc have "x \<notin> set (dropWhile (\<lambda>y. y = x) xs)" "k' < length xs"
        "xs ! k' = x" "j' \<le> k'"
        by simp_all
      then have "xs ! j' = x" by (rule run_end)
      with 0 Suc show ?thesis by simp
    qed
  next
    case (Suc i')
    with Cons.prems obtain j' k' where "j = Suc j'" "k = Suc k'"
      by (cases j; cases k) auto
    with Cons.prems Suc Cons.IH [of k' j' i'] show ?thesis by simp
  qed
qed

lemma grouped_contiguous_runs: "grouped ids \<Longrightarrow> contiguous_runs ids"
  unfolding contiguous_runs_def by (blast intro: grouped_nth)

lemma bucket_head_Some:
  "bucket_head b l = Some p \<Longrightarrow> \<exists>n\<in>set l. fst n = p \<and> entry_id (snd n) = b"
  by (induction l) (auto split: if_splits)

lemma table_ok_invariants: "table_ok H t \<Longrightarrow> table_invariants H t"
proof -
  assume ok: "table_ok H t"
  then have s: "structure_ok H (table_size t) (entry_list t) (cell_array t) (next_node t)"
    and c: "entry_count t = int (length (entry_list t))"
    by (simp_all add: table_ok_def)
  from s have cells: "cell_array t = map (\<lambda>b. bucket_head (int b) (entry_list t)) [0..<nat (table_size t)]"
    by (simp add: structure_ok_def)
  have "\<forall>b<length (cell_array t).
         case cell_array t ! b of
           None \<Rightarrow> True
         | Some p \<Rightarrow> \<exists>n\<in>set (entry_list t). fst n = p \<and> entry_id (snd n) = int b"
  proof (intro allI impI)
    fix b
    assume b: "b < length (cell_array t)"
    show "case cell_array t ! b of
            None \<Rightarrow> True
          | Some p \<Rightarrow> \<exists>n\<in>set (entry_list t). fst n = p \<and> entry_id (snd n) = int b"
    proof (cases "cell_array t ! b")
      case None
      then show ?thesis by simp
    next
      case (Some p)
      with b cells have "bucket_head (int b) (entry_list t) = Some p"
        by (metis (no_types, lifting) add_0 diff_zero length_map length_upt nth_map nth_upt)
      then have "\<exists>n\<in>set (entry_list t). fst n = p \<and> entry_id (snd n) = int b"
        by (rule bucket_head_Some)
      with Some show ?thesis by simp
    qed
  qed
  moreover from s have "contiguous_runs (map (\<lambda>n. entry_id (snd n)) (entry_list t))"
    by (simp add: structure_ok_def grouped_contiguous_runs)
  moreover from s have "\<forall>n\<in>set (entry_list t).
      H (key (snd n)) (table_size t) = Inr (entry_id (snd n))"
    by (simp add: structure_ok_def)
  ultimately show ?thesis using c by (simp add: table_invariants_def)
qed

section \<open>The three overloads return an index\<close>

lemma HashKey_int_in_range: "hash_in_range HashKey_int"
proof -
  have "0 \<le> \<bar>a smod ts\<bar> \<and> \<bar>a smod ts\<bar> < ts" if "0 < ts" for a ts :: int
    using smod_int_range [where a = a and b = ts] that by auto
  then show ?thesis
    by (auto simp: hash_in_range_def HashKey_int_def)
qed

lemma HashKey_ptr_in_range: "hash_in_range HashKey_ptr"
proof -
  have "0 \<le> \<bar>a smod ts\<bar> \<and> \<bar>a smod ts\<bar> < ts" if "0 < ts" for a ts :: int
    using smod_int_range [where a = a and b = ts] that by auto
  then show ?thesis
    by (auto simp: hash_in_range_def HashKey_ptr_def)
qed

lemma sint_mod_table_size:
  assumes "0 < ts" and "ts < 2 ^ 31"
  shows "0 \<le> sint (h mod (word_of_int ts :: 32 word))"
    and "sint (h mod (word_of_int ts :: 32 word)) < ts"
proof -
  let ?w = "word_of_int ts :: 32 word"
  from assms have u: "uint ?w = ts"
    by (simp add: uint_word_of_int)
  have "uint (h mod ?w) = uint h mod uint ?w" by (rule uint_mod)
  with u assms have lt: "uint (h mod ?w) < ts" and ge: "0 \<le> uint (h mod ?w)"
    by simp_all
  from lt assms have lt31: "uint (h mod ?w) < 2 ^ 31" by simp
  have "signed_take_bit 31 (uint (h mod ?w)) = uint (h mod ?w)"
  proof (rule signed_take_bit_int_eq_self)
    have "(0 :: int) \<le> uint (h mod ?w)" by (rule uint_ge_0)
    moreover have "- (2 ^ 31) \<le> (0 :: int)" by simp
    ultimately show "- (2 ^ 31) \<le> uint (h mod ?w)" by (rule order_trans [rotated])
    show "uint (h mod ?w) < 2 ^ 31" by (rule lt31)
  qed
  then have "sint (h mod ?w) = uint (h mod ?w)"
    by (simp add: sint_uint)
  with lt ge show "0 \<le> sint (h mod ?w)" and "sint (h mod ?w) < ts" by simp_all
qed

lemma HashKey_cString_in_range: "hash_in_range HashKey_cString"
  by (auto simp: hash_in_range_def HashKey_cString_def Let_def sint_mod_table_size)

text \<open>
  C1. Start from a fresh table of any size and run any sequence of \<^verbatim>\<open>Add\<close>,
  \<^verbatim>\<open>SetValue\<close>, \<^verbatim>\<open>Remove\<close> and \<^verbatim>\<open>SetTableSize\<close>, with any overload of \<^verbatim>\<open>HashKey\<close>.
  If the run gets to its end, then in the table it leaves \<^verbatim>\<open>entry_count\<close> is the number of
  entries in the list, every cell that is not NULL points at a node of the list whose
  entry has the index of the cell as its \<^verbatim>\<open>id\<close>, the entries of one \<^verbatim>\<open>id\<close> form one run
  of the list, and the \<^verbatim>\<open>id\<close> of every entry is the hash of its key under the size that
  the table has now.
\<close>

theorem invariants_after_operations:
  "tHashTable_new in_table_size = Inr t0 \<Longrightarrow> run_operations HashKey ops t0 = Inr t \<Longrightarrow>
   table_invariants HashKey t"
  by (blast intro: table_ok_invariants run_operations_table_ok tHashTable_new_table_ok)

theorem invariants_after_operations_witness:
  "\<exists>t0 t. tHashTable_new 3 = Inr t0 \<and>
     run_operations HashKey_cString
       [Op_Add ''a'' (1 :: int), Op_Add ''d'' 2, Op_Add ''b'' 3, Op_SetValue ''a'' 5,
        Op_Add ''a'' 7, Op_Remove ''d'', Op_SetTableSize 2] t0 = Inr t \<and>
     entry_list t =
       [(5, \<lparr>key = ''a'', entry_id = 1, data = 5\<rparr>),
        (4, \<lparr>key = ''a'', entry_id = 1, data = 7\<rparr>),
        (6, \<lparr>key = ''b'', entry_id = 0, data = 3\<rparr>)] \<and>
     cell_array t = [Some 6, Some 5] \<and>
     table_invariants HashKey_cString t"
proof -
  let ?fresh = "\<lparr>entry_count = 0, table_size = 3, entry_list = [],
              cell_array = [None, None, None], next_node = 0\<rparr> :: (string, int) tHashTable"
  let ?final = "\<lparr>entry_count = 3, table_size = 2,
        entry_list =
          [(5, \<lparr>key = ''a'', entry_id = 1, data = 5\<rparr>),
           (4, \<lparr>key = ''a'', entry_id = 1, data = 7\<rparr>),
           (6, \<lparr>key = ''b'', entry_id = 0, data = 3\<rparr>)],
        cell_array = [Some 6, Some 5], next_node = 7\<rparr> :: (string, int) tHashTable"
  have new: "tHashTable_new 3 = Inr ?fresh"
    by code_simp
  have run: "run_operations HashKey_cString
       [Op_Add ''a'' (1 :: int), Op_Add ''d'' 2, Op_Add ''b'' 3, Op_SetValue ''a'' 5,
        Op_Add ''a'' 7, Op_Remove ''d'', Op_SetTableSize 2] ?fresh = Inr ?final"
    by code_simp
  from invariants_after_operations [OF new run] new run show ?thesis
    by (intro exI [of _ ?fresh] exI [of _ ?final]) simp
qed

section \<open>What Add leaves in the table\<close>

lemma Add_result:
  assumes ok: "table_ok H t" and hash: "H k (table_size t) = Inr bin"
    and bin: "0 \<le> bin" "bin < table_size t"
  shows "\<exists>t'. Add H k d t = Inr t' \<and> table_ok H t' \<and> table_size t' = table_size t \<and>
           next_node t' = Suc (next_node t) \<and>
           entry_list t' =
             takeWhile (\<lambda>n. entry_id (snd n) \<noteq> bin) (entry_list t) @
             (next_node t, \<lparr>key = k, entry_id = bin, data = d\<rparr>) #
             dropWhile (\<lambda>n. entry_id (snd n) \<noteq> bin) (entry_list t)"
proof -
  note eq = Add_eq [OF assms, of d]
  from Add_table_ok [OF ok eq] eq show ?thesis by simp
qed

lemma before_run_other_keys:
  assumes ok: "table_ok H t" and hash: "H k (table_size t) = Inr bin"
  shows "\<forall>n\<in>set (takeWhile (\<lambda>n. entry_id (snd n) \<noteq> bin) (entry_list t)). key (snd n) \<noteq> k"
proof
  fix n
  assume n: "n \<in> set (takeWhile (\<lambda>n. entry_id (snd n) \<noteq> bin) (entry_list t))"
  then have "n \<in> set (entry_list t)" and "entry_id (snd n) \<noteq> bin"
    by (auto dest: set_takeWhileD)
  moreover from ok have "\<forall>n\<in>set (entry_list t).
      H (key (snd n)) (table_size t) = Inr (entry_id (snd n))"
    by (simp add: table_ok_def structure_ok_def)
  ultimately show "key (snd n) \<noteq> k" using hash by auto
qed

lemma find_insert_place:
  "\<forall>n\<in>set (takeWhile Q l). \<not> P n \<Longrightarrow> P x \<Longrightarrow>
   List.find P (takeWhile Q l @ x # dropWhile Q l) = Some x"
  by (simp add: find_append_none)

lemma remove1_insert_place:
  "x \<notin> set l \<Longrightarrow> remove1 x (takeWhile Q l @ x # dropWhile Q l) = l"
proof -
  assume "x \<notin> set l"
  then have "x \<notin> set (takeWhile Q l)" by (auto dest: set_takeWhileD)
  then show ?thesis by (simp add: remove1_append)
qed

lemma fresh_node: "table_ok H t \<Longrightarrow> (next_node t, e) \<notin> set (entry_list t)"
  by (auto simp: table_ok_def structure_ok_def)

lemma fresh_node_ptr: "table_ok H t \<Longrightarrow> next_node t \<notin> fst ` set (entry_list t)"
  by (auto simp: table_ok_def structure_ok_def)

text \<open>A table whose list is the one that \<^verbatim>\<open>Add\<close> left: lookup and removal of the key.\<close>

lemma after_Add:
  assumes ok: "table_ok H t" and hash: "H k (table_size t) = Inr bin"
    and bin: "0 \<le> bin" "bin < table_size t"
    and u: "table_ok H u" "table_size u = table_size t"
      "entry_list u =
         takeWhile (\<lambda>n. entry_id (snd n) \<noteq> bin) (entry_list t) @
         (next_node t, \<lparr>key = k, entry_id = bin, data = d\<rparr>) #
         dropWhile (\<lambda>n. entry_id (snd n) \<noteq> bin) (entry_list t)"
  shows "FindEntry H k u = Inr (Some (next_node t, \<lparr>key = k, entry_id = bin, data = d\<rparr>))"
    and "\<exists>u'. Remove H k u = Inr (Some d, u') \<and> table_ok H u' \<and>
           table_size u' = table_size t \<and> entry_list u' = entry_list t \<and>
           next_node u' = next_node u"
proof -
  let ?new = "(next_node t, \<lparr>key = k, entry_id = bin, data = d\<rparr>)"
  from u(2) hash bin have hash_u: "H k (table_size u) = Inr bin"
    and bin_u: "0 \<le> bin" "bin < table_size u"
    by simp_all
  have f: "List.find (\<lambda>n. key (snd n) = k) (entry_list u) = Some ?new"
    unfolding u(3) using before_run_other_keys [OF ok hash]
    by (intro find_insert_place) simp_all
  with FindEntry_eq [OF u(1) hash_u bin_u]
  show "FindEntry H k u = Inr (Some ?new)" by simp
  have head: "bucket_head bin (entry_list u) = Some (next_node t)"
    unfolding u(3) using bucket_head_insert_same [of ?new bin "entry_list t"] by simp
  have rm: "remove1 ?new (entry_list u) = entry_list t"
    unfolding u(3) using fresh_node [OF ok] by (rule remove1_insert_place)
  from Remove_cases [OF u(1) hash_u bin_u head] f rm u(2)
  show "\<exists>u'. Remove H k u = Inr (Some d, u') \<and> table_ok H u' \<and>
           table_size u' = table_size t \<and> entry_list u' = entry_list t \<and>
           next_node u' = next_node u"
    by auto
qed

text \<open>
  C3. In a table that satisfies the invariant, \<^verbatim>\<open>Add\<close> of a key whose hash is the cell
  \<open>bin\<close> returns, and the new node (a node that was not in the list) holds the key, the
  data and \<open>bin\<close> as its \<^verbatim>\<open>id\<close>. If the cell was NULL the node is the last of the list; if
  the cell pointed at the node \<open>p\<close>, the node stands immediately before \<open>p\<close> and the rest
  of the list is as it was. Either way the cell points at the new node, the other cells
  are as they were, and \<^verbatim>\<open>entry_count\<close> is one more.
\<close>

theorem Add_placement:
  assumes "table_ok HashKey t" and "HashKey k (table_size t) = Inr bin"
    and "0 \<le> bin" and "bin < table_size t"
  shows "\<exists>t'. Add HashKey k d t = Inr t' \<and>
     next_node t \<notin> fst ` set (entry_list t) \<and>
     (case cell_array t ! nat bin of
        None \<Rightarrow>
          entry_list t' =
            entry_list t @ [(next_node t, \<lparr>key = k, entry_id = bin, data = d\<rparr>)]
      | Some p \<Rightarrow>
          (\<exists>before head after.
             entry_list t = before @ head # after \<and> fst head = p \<and>
             p \<notin> fst ` set before \<and>
             entry_list t' =
               before @ (next_node t, \<lparr>key = k, entry_id = bin, data = d\<rparr>) # head # after)) \<and>
     cell_array t' = (cell_array t)[nat bin := Some (next_node t)] \<and>
     cell_array t' ! nat bin = Some (next_node t) \<and>
     entry_count t' = entry_count t + 1 \<and>
     table_size t' = table_size t"
proof -
  let ?new = "(next_node t, \<lparr>key = k, entry_id = bin, data = d\<rparr>)"
  let ?l = "entry_list t"
  let ?t' = "t\<lparr>entry_list :=
              takeWhile (\<lambda>n. entry_id (snd n) \<noteq> bin) ?l @ ?new #
              dropWhile (\<lambda>n. entry_id (snd n) \<noteq> bin) ?l,
            cell_array := (cell_array t)[nat bin := Some (next_node t)],
            next_node := Suc (next_node t),
            entry_count := entry_count t + 1\<rparr>"
  from assms(1) have s: "structure_ok HashKey (table_size t) ?l (cell_array t) (next_node t)"
    by (simp add: table_ok_def)
  then have d: "distinct (map fst ?l)" by (simp add: structure_ok_def)
  have add: "Add HashKey k d t = Inr ?t'" by (rule Add_eq [OF assms])
  from structure_ok_cells [OF s assms(3,4)]
  have cell: "cell_array t ! nat bin = bucket_head bin ?l"
    and len: "nat bin < length (cell_array t)"
    by (auto simp: tArray_get_def split: if_splits)
  have place: "case cell_array t ! nat bin of
        None \<Rightarrow> entry_list ?t' = ?l @ [?new]
      | Some p \<Rightarrow>
          (\<exists>before head after.
             ?l = before @ head # after \<and> fst head = p \<and> p \<notin> fst ` set before \<and>
             entry_list ?t' = before @ ?new # head # after)"
  proof (cases "bucket_head bin ?l")
    case None
    then have "\<forall>n\<in>set ?l. entry_id (snd n) \<noteq> bin"
      by (simp add: bucket_head_None)
    then have "takeWhile (\<lambda>n. entry_id (snd n) \<noteq> bin) ?l = ?l"
      and "dropWhile (\<lambda>n. entry_id (snd n) \<noteq> bin) ?l = []"
      by (simp_all add: takeWhile_eq_all_conv dropWhile_eq_Nil_conv)
    then have "entry_list ?t' = ?l @ [?new]" by simp
    with None cell show ?thesis by simp
  next
    case (Some p)
    from bucket_head_split [OF d Some] obtain pre h post where
      l: "?l = pre @ h # post" and hp: "fst h = p" and h: "entry_id (snd h) = bin" and
      pre: "\<forall>n\<in>set pre. entry_id (snd n) \<noteq> bin"
      by blast
    from l h pre have "takeWhile (\<lambda>n. entry_id (snd n) \<noteq> bin) ?l = pre"
      and "dropWhile (\<lambda>n. entry_id (snd n) \<noteq> bin) ?l = h # post"
      by simp_all
    then have e: "entry_list ?t' = pre @ ?new # h # post" by simp
    from d l hp have "p \<notin> fst ` set pre" by auto
    with l hp e have "\<exists>before head after.
             ?l = before @ head # after \<and> fst head = p \<and> p \<notin> fst ` set before \<and>
             entry_list ?t' = before @ ?new # head # after"
      by blast
    with Some cell show ?thesis by simp
  qed
  from add place len fresh_node_ptr [OF assms(1)] show ?thesis
    by (intro exI [of _ ?t']) simp
qed

theorem Add_placement_witness:
  "table_ok HashKey_cString
     \<lparr>entry_count = 1, table_size = 3,
      entry_list = [(0, \<lparr>key = ''a'', entry_id = 1, data = 1 :: int\<rparr>)],
      cell_array = [None, Some 0, None], next_node = 1\<rparr> \<and>
   HashKey_cString ''d'' 3 = Inr 1 \<and>
   (\<exists>t'. Add HashKey_cString ''d'' 2
           \<lparr>entry_count = 1, table_size = 3,
            entry_list = [(0, \<lparr>key = ''a'', entry_id = 1, data = 1 :: int\<rparr>)],
            cell_array = [None, Some 0, None], next_node = 1\<rparr> = Inr t' \<and>
         entry_list t' =
           [(1, \<lparr>key = ''d'', entry_id = 1, data = 2\<rparr>),
            (0, \<lparr>key = ''a'', entry_id = 1, data = 1\<rparr>)] \<and>
         cell_array t' = [None, Some 1, None] \<and> entry_count t' = 2)"
proof -
  let ?T = "\<lparr>entry_count = 1, table_size = 3,
      entry_list = [(0, \<lparr>key = ''a'', entry_id = 1, data = 1 :: int\<rparr>)],
      cell_array = [None, Some 0, None], next_node = 1\<rparr> :: (string, int) tHashTable"
  have ok: "table_ok HashKey_cString ?T" by code_simp
  have hash: "HashKey_cString ''d'' (table_size ?T) = Inr 1" by code_simp
  from Add_placement [OF ok hash, of 2] obtain t' where
    "Add HashKey_cString ''d'' 2 ?T = Inr t'"
    "\<exists>before head after.
       [(0 :: nat, \<lparr>key = ''a'', entry_id = 1, data = 1 :: int\<rparr>)] = before @ head # after \<and>
       fst head = 0 \<and> 0 \<notin> fst ` set before \<and>
       entry_list t' = before @ (1, \<lparr>key = ''d'', entry_id = 1, data = 2\<rparr>) # head # after"
    "cell_array t' = [None, Some 1, None]" "entry_count t' = 2"
    by auto
  moreover from this(2) have "entry_list t' =
      [(1, \<lparr>key = ''d'', entry_id = 1, data = 2\<rparr>),
       (0, \<lparr>key = ''a'', entry_id = 1, data = 1\<rparr>)]"
    by (auto simp: Cons_eq_append_conv)
  ultimately show ?thesis using ok hash by auto
qed

section \<open>Add twice, Remove twice\<close>

lemma HasEntry_False:
  assumes ok: "table_ok H t" and "HasEntry H k t = Inr False"
  shows "\<exists>bin. H k (table_size t) = Inr bin \<and> 0 \<le> bin \<and> bin < table_size t \<and>
           List.find (\<lambda>n. key (snd n) = k) (entry_list t) = None"
proof -
  from assms(2) obtain r where "FindEntry H k t = Inr r" and "\<not> r \<noteq> None"
    by (cases "FindEntry H k t") (simp_all add: HasEntry_def del: not_None_eq)
  then have f: "FindEntry H k t = Inr None" by (cases r) simp_all
  from FindEntry_Inr_hash [OF ok f] obtain bin where
    b: "H k (table_size t) = Inr bin" "0 \<le> bin" "bin < table_size t"
    by blast
  from FindEntry_eq [OF ok b] f b show ?thesis by simp
qed

text \<open>
  C2. In a table that satisfies the invariant, for a key \<open>k\<close> that hashes to a cell of
  the table: after \<^verbatim>\<open>Add(k, v1)\<close> and \<^verbatim>\<open>Add(k, v2)\<close>, \<^verbatim>\<open>Find(k)\<close> returns \<open>v2\<close>;
  \<^verbatim>\<open>Remove(k)\<close> then returns \<open>v2\<close> and after it \<^verbatim>\<open>Find(k)\<close> returns \<open>v1\<close>; a second
  \<^verbatim>\<open>Remove(k)\<close> returns \<open>v1\<close> and leaves the entry list that was there before the two
  \<^verbatim>\<open>Add\<close>s, so that \<^verbatim>\<open>HasEntry(k)\<close> is what it was then: false, if the table did not hold
  the key before.
\<close>

theorem Add_twice_shadows:
  assumes "table_ok HashKey t" and "HashKey k (table_size t) = Inr bin"
    and "0 \<le> bin" and "bin < table_size t"
  shows "\<exists>t1 t2 t3 t4.
     Add HashKey k v1 t = Inr t1 \<and> Add HashKey k v2 t1 = Inr t2 \<and>
     Find HashKey k t2 = Inr (Some v2) \<and>
     Remove HashKey k t2 = Inr (Some v2, t3) \<and>
     Find HashKey k t3 = Inr (Some v1) \<and>
     Remove HashKey k t3 = Inr (Some v1, t4) \<and>
     entry_list t4 = entry_list t \<and>
     HasEntry HashKey k t4 = HasEntry HashKey k t \<and>
     (HasEntry HashKey k t = Inr False \<longrightarrow> HasEntry HashKey k t4 = Inr False)"
proof -
  note hash = assms(2) and bin = assms(3,4)
  from Add_result [OF assms, of v1] obtain t1 where
    t1: "Add HashKey k v1 t = Inr t1" "table_ok HashKey t1" "table_size t1 = table_size t"
      "entry_list t1 =
         takeWhile (\<lambda>n. entry_id (snd n) \<noteq> bin) (entry_list t) @
         (next_node t, \<lparr>key = k, entry_id = bin, data = v1\<rparr>) #
         dropWhile (\<lambda>n. entry_id (snd n) \<noteq> bin) (entry_list t)"
    by blast
  from t1(3) hash bin have hash1: "HashKey k (table_size t1) = Inr bin"
    and bin1: "0 \<le> bin" "bin < table_size t1"
    by simp_all
  from Add_result [OF t1(2) hash1 bin1, of v2] obtain t2 where
    t2: "Add HashKey k v2 t1 = Inr t2" "table_ok HashKey t2" "table_size t2 = table_size t1"
      "entry_list t2 =
         takeWhile (\<lambda>n. entry_id (snd n) \<noteq> bin) (entry_list t1) @
         (next_node t1, \<lparr>key = k, entry_id = bin, data = v2\<rparr>) #
         dropWhile (\<lambda>n. entry_id (snd n) \<noteq> bin) (entry_list t1)"
    by blast
  from after_Add [OF t1(2) hash1 bin1 t2(2,3,4)] obtain t3 where
    f2: "FindEntry HashKey k t2 =
           Inr (Some (next_node t1, \<lparr>key = k, entry_id = bin, data = v2\<rparr>))"
    and t3: "Remove HashKey k t2 = Inr (Some v2, t3)" "table_ok HashKey t3"
      "table_size t3 = table_size t1" "entry_list t3 = entry_list t1"
    by blast
  from t3(3,4) t1(3,4) have t3': "table_size t3 = table_size t"
    "entry_list t3 =
         takeWhile (\<lambda>n. entry_id (snd n) \<noteq> bin) (entry_list t) @
         (next_node t, \<lparr>key = k, entry_id = bin, data = v1\<rparr>) #
         dropWhile (\<lambda>n. entry_id (snd n) \<noteq> bin) (entry_list t)"
    by simp_all
  from after_Add [OF assms t3(2) t3'] obtain t4 where
    f3: "FindEntry HashKey k t3 =
           Inr (Some (next_node t, \<lparr>key = k, entry_id = bin, data = v1\<rparr>))"
    and t4: "Remove HashKey k t3 = Inr (Some v1, t4)" "table_ok HashKey t4"
      "table_size t4 = table_size t" "entry_list t4 = entry_list t"
    by blast
  from t4(3) hash bin have "HashKey k (table_size t4) = Inr bin" "0 \<le> bin" "bin < table_size t4"
    by simp_all
  from FindEntry_eq [OF t4(2) this] t4(4) FindEntry_eq [OF assms]
  have "HasEntry HashKey k t4 = HasEntry HashKey k t" by (simp add: HasEntry_def)
  with t1(1) t2(1) f2 t3(1) f3 t4(1,4) show ?thesis
    by (simp add: Find_def)
qed

theorem Add_twice_shadows_witness:
  "table_ok HashKey_cString
     \<lparr>entry_count = 1, table_size = 3,
      entry_list = [(0, \<lparr>key = ''a'', entry_id = 1, data = 1 :: int\<rparr>)],
      cell_array = [None, Some 0, None], next_node = 1\<rparr> \<and>
   HashKey_cString ''d'' 3 = Inr 1 \<and>
   HasEntry HashKey_cString ''d''
     \<lparr>entry_count = 1, table_size = 3,
      entry_list = [(0, \<lparr>key = ''a'', entry_id = 1, data = 1 :: int\<rparr>)],
      cell_array = [None, Some 0, None], next_node = 1\<rparr> = Inr False \<and>
   (\<exists>t1 t2 t3 t4.
     Add HashKey_cString ''d'' 10
       \<lparr>entry_count = 1, table_size = 3,
        entry_list = [(0, \<lparr>key = ''a'', entry_id = 1, data = 1 :: int\<rparr>)],
        cell_array = [None, Some 0, None], next_node = 1\<rparr> = Inr t1 \<and>
     Add HashKey_cString ''d'' 20 t1 = Inr t2 \<and>
     Find HashKey_cString ''d'' t2 = Inr (Some 20) \<and>
     Remove HashKey_cString ''d'' t2 = Inr (Some 20, t3) \<and>
     Find HashKey_cString ''d'' t3 = Inr (Some 10) \<and>
     Remove HashKey_cString ''d'' t3 = Inr (Some 10, t4) \<and>
     HasEntry HashKey_cString ''d'' t4 = Inr False)"
proof -
  let ?T = "\<lparr>entry_count = 1, table_size = 3,
      entry_list = [(0, \<lparr>key = ''a'', entry_id = 1, data = 1 :: int\<rparr>)],
      cell_array = [None, Some 0, None], next_node = 1\<rparr> :: (string, int) tHashTable"
  have ok: "table_ok HashKey_cString ?T" by code_simp
  have hash: "HashKey_cString ''d'' (table_size ?T) = Inr 1" by code_simp
  have absent: "HasEntry HashKey_cString ''d'' ?T = Inr False" by code_simp
  from Add_twice_shadows [OF ok hash, of 10 20] absent
  have "\<exists>t1 t2 t3 t4.
     Add HashKey_cString ''d'' 10 ?T = Inr t1 \<and>
     Add HashKey_cString ''d'' 20 t1 = Inr t2 \<and>
     Find HashKey_cString ''d'' t2 = Inr (Some 20) \<and>
     Remove HashKey_cString ''d'' t2 = Inr (Some 20, t3) \<and>
     Find HashKey_cString ''d'' t3 = Inr (Some 10) \<and>
     Remove HashKey_cString ''d'' t3 = Inr (Some 10, t4) \<and>
     HasEntry HashKey_cString ''d'' t4 = Inr False"
    by simp blast
  with ok hash absent show ?thesis by simp
qed

section \<open>Remove of a key that is not there\<close>

lemma Remove_miss:
  assumes ok: "table_ok H t" and hash: "H k (table_size t) = Inr bin"
    and get: "tArray_get (cell_array t) bin = Inr (Some p)"
    and absent: "HasEntry H k t = Inr False"
  shows "Remove H k t = Inr (None, t)"
proof -
  from ok have s: "structure_ok H (table_size t) (entry_list t) (cell_array t) (next_node t)"
    by (simp add: table_ok_def)
  from structure_ok_get [OF s get] have bin: "0 \<le> bin" "bin < table_size t"
    and head: "bucket_head bin (entry_list t) = Some p"
    by simp_all
  from HasEntry_False [OF ok absent]
  have "List.find (\<lambda>n. key (snd n) = k) (entry_list t) = None" by blast
  with Remove_cases [OF ok hash bin head] show ?thesis by simp
qed

text \<open>
  C5. \<^verbatim>\<open>Remove\<close> of a key whose cell is NULL stops at the \<^verbatim>\<open>assert\<close>. In a table that
  satisfies the invariant, \<^verbatim>\<open>Remove\<close> of a key whose cell is not NULL and which
  \<^verbatim>\<open>HasEntry\<close> does not find returns as any other call does, with an \<^verbatim>\<open>out_data\<close> that
  nothing was assigned to.
\<close>

theorem Remove_assert_or_default:
  "(HashKey k (table_size t) = Inr bin \<and> tArray_get (cell_array t) bin = Inr None \<longrightarrow>
      Remove HashKey k t = Inl AssertionFailure) \<and>
   (table_ok HashKey t \<and> HashKey k (table_size t) = Inr bin \<and>
    tArray_get (cell_array t) bin = Inr (Some p) \<and> HasEntry HashKey k t = Inr False \<longrightarrow>
      (\<exists>t'. Remove HashKey k t = Inr (None, t')))"
  by (auto simp: Remove_def dest: Remove_miss)

theorem Remove_assert_or_default_witness:
  "HashKey_cString ''b'' 3 = Inr 2 \<and>
   tArray_get [None, Some (0 :: nat), None] 2 = Inr None \<and>
   Remove HashKey_cString ''b''
     \<lparr>entry_count = 1, table_size = 3,
      entry_list = [(0, \<lparr>key = ''a'', entry_id = 1, data = 1 :: int\<rparr>)],
      cell_array = [None, Some 0, None], next_node = 1\<rparr> = Inl AssertionFailure \<and>
   table_ok HashKey_cString
     \<lparr>entry_count = 1, table_size = 3,
      entry_list = [(0, \<lparr>key = ''a'', entry_id = 1, data = 1 :: int\<rparr>)],
      cell_array = [None, Some 0, None], next_node = 1\<rparr> \<and>
   HashKey_cString ''d'' 3 = Inr 1 \<and>
   tArray_get [None, Some (0 :: nat), None] 1 = Inr (Some 0) \<and>
   HasEntry HashKey_cString ''d''
     \<lparr>entry_count = 1, table_size = 3,
      entry_list = [(0, \<lparr>key = ''a'', entry_id = 1, data = 1 :: int\<rparr>)],
      cell_array = [None, Some 0, None], next_node = 1\<rparr> = Inr False \<and>
   (\<exists>t'. Remove HashKey_cString ''d''
           \<lparr>entry_count = 1, table_size = 3,
            entry_list = [(0, \<lparr>key = ''a'', entry_id = 1, data = 1 :: int\<rparr>)],
            cell_array = [None, Some 0, None], next_node = 1\<rparr> = Inr (None, t'))"
proof -
  let ?T = "\<lparr>entry_count = 1, table_size = 3,
      entry_list = [(0, \<lparr>key = ''a'', entry_id = 1, data = 1 :: int\<rparr>)],
      cell_array = [None, Some 0, None], next_node = 1\<rparr> :: (string, int) tHashTable"
  have b: "HashKey_cString ''b'' (table_size ?T) = Inr 2"
    "tArray_get (cell_array ?T) 2 = Inr None"
    by code_simp+
  have d: "table_ok HashKey_cString ?T" "HashKey_cString ''d'' (table_size ?T) = Inr 1"
    "tArray_get (cell_array ?T) 1 = Inr (Some 0)" "HasEntry HashKey_cString ''d'' ?T = Inr False"
    by code_simp+
  from Remove_assert_or_default [of HashKey_cString "''b''" ?T 2] b
  have "Remove HashKey_cString ''b'' ?T = Inl AssertionFailure" by blast
  moreover from Remove_assert_or_default [of HashKey_cString "''d''" ?T 1 0] d
  have "\<exists>t'. Remove HashKey_cString ''d'' ?T = Inr (None, t')" by blast
  ultimately show ?thesis using b d by simp
qed

text \<open>
  C10. In a table that satisfies the invariant, \<^verbatim>\<open>Remove\<close> of a key whose cell is not
  NULL and which \<^verbatim>\<open>HasEntry\<close> does not find returns with the table as it was: the same
  entry list, the same \<^verbatim>\<open>entry_count\<close>, the same cells.
\<close>

theorem Remove_miss_changes_nothing:
  assumes "table_ok HashKey t" and "HashKey k (table_size t) = Inr bin"
    and "tArray_get (cell_array t) bin = Inr (Some p)"
    and "HasEntry HashKey k t = Inr False"
  shows "\<exists>out_data t'. Remove HashKey k t = Inr (out_data, t') \<and> t' = t \<and>
           entry_list t' = entry_list t \<and> entry_count t' = entry_count t \<and>
           cell_array t' = cell_array t"
  using Remove_miss [OF assms] by simp

theorem Remove_miss_changes_nothing_witness:
  "table_ok HashKey_cString
     \<lparr>entry_count = 1, table_size = 3,
      entry_list = [(0, \<lparr>key = ''a'', entry_id = 1, data = 1 :: int\<rparr>)],
      cell_array = [None, Some 0, None], next_node = 1\<rparr> \<and>
   HashKey_cString ''d'' 3 = Inr 1 \<and>
   tArray_get [None, Some (0 :: nat), None] 1 = Inr (Some 0) \<and>
   HasEntry HashKey_cString ''d''
     \<lparr>entry_count = 1, table_size = 3,
      entry_list = [(0, \<lparr>key = ''a'', entry_id = 1, data = 1 :: int\<rparr>)],
      cell_array = [None, Some 0, None], next_node = 1\<rparr> = Inr False \<and>
   (\<exists>out_data. Remove HashKey_cString ''d''
           \<lparr>entry_count = 1, table_size = 3,
            entry_list = [(0, \<lparr>key = ''a'', entry_id = 1, data = 1 :: int\<rparr>)],
            cell_array = [None, Some 0, None], next_node = 1\<rparr> =
         Inr (out_data,
           \<lparr>entry_count = 1, table_size = 3,
            entry_list = [(0, \<lparr>key = ''a'', entry_id = 1, data = 1 :: int\<rparr>)],
            cell_array = [None, Some 0, None], next_node = 1\<rparr>))"
proof -
  let ?T = "\<lparr>entry_count = 1, table_size = 3,
      entry_list = [(0, \<lparr>key = ''a'', entry_id = 1, data = 1 :: int\<rparr>)],
      cell_array = [None, Some 0, None], next_node = 1\<rparr> :: (string, int) tHashTable"
  have d: "table_ok HashKey_cString ?T" "HashKey_cString ''d'' (table_size ?T) = Inr 1"
    "tArray_get (cell_array ?T) 1 = Inr (Some 0)" "HasEntry HashKey_cString ''d'' ?T = Inr False"
    by code_simp+
  from Remove_miss_changes_nothing [OF d] d show ?thesis by simp
qed

section \<open>SetValue\<close>

lemma find_map_same:
  "(\<And>n. P (f n) = P n) \<Longrightarrow> List.find P (map f l) = map_option f (List.find P l)"
  by (induction l) auto

lemma SetValue_present:
  assumes ok: "table_ok H t" and hash: "H k (table_size t) = Inr bin"
    and bin: "0 \<le> bin" "bin < table_size t"
    and f: "List.find (\<lambda>n. key (snd n) = k) (entry_list t) = Some cur_entry"
  shows "SetValue H k d t =
      Inr (t\<lparr>entry_list :=
               map (\<lambda>n. if fst n = fst cur_entry then (fst n, (snd n)\<lparr>data := d\<rparr>) else n)
                   (entry_list t)\<rparr>)"
    and "table_ok H (t\<lparr>entry_list :=
               map (\<lambda>n. if fst n = fst cur_entry then (fst n, (snd n)\<lparr>data := d\<rparr>) else n)
                   (entry_list t)\<rparr>)"
    and "List.find (\<lambda>n. key (snd n) = k)
           (map (\<lambda>n. if fst n = fst cur_entry then (fst n, (snd n)\<lparr>data := d\<rparr>) else n)
                (entry_list t)) =
         Some (fst cur_entry, (snd cur_entry)\<lparr>data := d\<rparr>)"
proof -
  let ?f = "\<lambda>n. if fst n = fst cur_entry then (fst n, (snd n)\<lparr>data := d\<rparr>) else n"
  show "SetValue H k d t = Inr (t\<lparr>entry_list := map ?f (entry_list t)\<rparr>)"
    by (simp add: SetValue_eq [OF ok hash bin] f)
  from ok show "table_ok H (t\<lparr>entry_list := map ?f (entry_list t)\<rparr>)"
    by (simp add: table_ok_def structure_ok_set_data)
  have "List.find (\<lambda>n. key (snd n) = k) (map ?f (entry_list t)) =
        map_option ?f (List.find (\<lambda>n. key (snd n) = k) (entry_list t))"
    by (rule find_map_same) simp
  with f show "List.find (\<lambda>n. key (snd n) = k) (map ?f (entry_list t)) =
         Some (fst cur_entry, (snd cur_entry)\<lparr>data := d\<rparr>)"
    by simp
qed

text \<open>\<^verbatim>\<open>SetValue\<close> on a key that the table holds: the same nodes, keys and count after it.\<close>

lemma SetValue_present_result:
  assumes ok: "table_ok H t" and hash: "H k (table_size t) = Inr bin"
    and bin: "0 \<le> bin" "bin < table_size t"
    and f: "List.find (\<lambda>n. key (snd n) = k) (entry_list t) = Some cur_entry"
  shows "\<exists>t'. SetValue H k d t = Inr t' \<and> table_ok H t' \<and> table_size t' = table_size t \<and>
           Find H k t' = Inr (Some d) \<and>
           entry_count t' = entry_count t \<and>
           map fst (entry_list t') = map fst (entry_list t) \<and>
           map (\<lambda>n. key (snd n)) (entry_list t') = map (\<lambda>n. key (snd n)) (entry_list t)"
proof -
  let ?f = "\<lambda>n. if fst n = fst cur_entry then (fst n, (snd n)\<lparr>data := d\<rparr>) else n"
  let ?t' = "t\<lparr>entry_list := map ?f (entry_list t)\<rparr>"
  note p = SetValue_present [OF assms, of d]
  from hash bin have "H k (table_size ?t') = Inr bin" "0 \<le> bin" "bin < table_size ?t'"
    by simp_all
  from FindEntry_eq [OF p(2) this] p(3) have "Find H k ?t' = Inr (Some d)"
    by (simp add: Find_def)
  with p(1,2) show ?thesis
    by (intro exI [of _ ?t']) simp
qed

text \<open>
  C4. In a table that satisfies the invariant, \<^verbatim>\<open>SetValue(k, v)\<close> returns and leaves a
  table in which \<^verbatim>\<open>Find(k)\<close> returns \<open>v\<close>. If \<^verbatim>\<open>FindEntry\<close> found the key, the table is
  the one before with \<open>v\<close> as the data of the node found: no node more, the same keys, the
  same \<^verbatim>\<open>entry_count\<close>. If not, the result is that of \<^verbatim>\<open>Add(k, v)\<close>. A further
  \<^verbatim>\<open>SetValue(k, v')\<close> finds the key: it leaves the nodes, the keys and \<^verbatim>\<open>entry_count\<close> as
  they are, and \<^verbatim>\<open>Find(k)\<close> returns \<open>v'\<close>.
\<close>

theorem SetValue_upsert:
  assumes "table_ok HashKey t" and "HashKey k (table_size t) = Inr bin"
    and "0 \<le> bin" and "bin < table_size t"
  shows "\<exists>t'. SetValue HashKey k v t = Inr t' \<and>
     Find HashKey k t' = Inr (Some v) \<and>
     (case FindEntry HashKey k t of
        Inl e \<Rightarrow> False
      | Inr None \<Rightarrow> Add HashKey k v t = Inr t'
      | Inr (Some cur_entry) \<Rightarrow>
          t' = t\<lparr>entry_list :=
                   map (\<lambda>n. if fst n = fst cur_entry then (fst n, (snd n)\<lparr>data := v\<rparr>) else n)
                       (entry_list t)\<rparr> \<and>
          entry_count t' = entry_count t \<and>
          length (entry_list t') = length (entry_list t) \<and>
          map (\<lambda>n. key (snd n)) (entry_list t') = map (\<lambda>n. key (snd n)) (entry_list t)) \<and>
     (\<exists>t''. SetValue HashKey k v' t' = Inr t'' \<and>
        Find HashKey k t'' = Inr (Some v') \<and>
        entry_count t'' = entry_count t' \<and>
        map fst (entry_list t'') = map fst (entry_list t') \<and>
        map (\<lambda>n. key (snd n)) (entry_list t'') = map (\<lambda>n. key (snd n)) (entry_list t'))"
proof -
  note fe = FindEntry_eq [OF assms]
  have first: "\<exists>t'. SetValue HashKey k v t = Inr t' \<and> table_ok HashKey t' \<and>
     table_size t' = table_size t \<and>
     Find HashKey k t' = Inr (Some v) \<and>
     List.find (\<lambda>n. key (snd n) = k) (entry_list t') \<noteq> None \<and>
     (case FindEntry HashKey k t of
        Inl e \<Rightarrow> False
      | Inr None \<Rightarrow> Add HashKey k v t = Inr t'
      | Inr (Some cur_entry) \<Rightarrow>
          t' = t\<lparr>entry_list :=
                   map (\<lambda>n. if fst n = fst cur_entry then (fst n, (snd n)\<lparr>data := v\<rparr>) else n)
                       (entry_list t)\<rparr> \<and>
          entry_count t' = entry_count t \<and>
          length (entry_list t') = length (entry_list t) \<and>
          map (\<lambda>n. key (snd n)) (entry_list t') = map (\<lambda>n. key (snd n)) (entry_list t))"
  proof (cases "List.find (\<lambda>n. key (snd n) = k) (entry_list t)")
    case None
    from Add_result [OF assms, of v] obtain t' where
      t': "Add HashKey k v t = Inr t'" "table_ok HashKey t'" "table_size t' = table_size t"
        "entry_list t' =
           takeWhile (\<lambda>n. entry_id (snd n) \<noteq> bin) (entry_list t) @
           (next_node t, \<lparr>key = k, entry_id = bin, data = v\<rparr>) #
           dropWhile (\<lambda>n. entry_id (snd n) \<noteq> bin) (entry_list t)"
      by blast
    from after_Add(1) [OF assms t'(2,3,4)]
    have f': "FindEntry HashKey k t' =
        Inr (Some (next_node t, \<lparr>key = k, entry_id = bin, data = v\<rparr>))" .
    from t'(3) assms have "HashKey k (table_size t') = Inr bin" "0 \<le> bin" "bin < table_size t'"
      by simp_all
    from FindEntry_eq [OF t'(2) this] f'
    have "List.find (\<lambda>n. key (snd n) = k) (entry_list t') =
        Some (next_node t, \<lparr>key = k, entry_id = bin, data = v\<rparr>)"
      by simp
    then have "List.find (\<lambda>n. key (snd n) = k) (entry_list t') \<noteq> None"
      by (simp del: not_None_eq)
    moreover from None t'(1) have "SetValue HashKey k v t = Inr t'"
      by (simp add: SetValue_eq [OF assms])
    ultimately show ?thesis
      using t' f' fe None by (intro exI [of _ t']) (simp add: Find_def)
  next
    case (Some cur_entry)
    let ?f = "\<lambda>n. if fst n = fst cur_entry then (fst n, (snd n)\<lparr>data := v\<rparr>) else n"
    let ?t' = "t\<lparr>entry_list := map ?f (entry_list t)\<rparr>"
    note p = SetValue_present [OF assms Some, of v]
    from assms have "HashKey k (table_size ?t') = Inr bin" "0 \<le> bin" "bin < table_size ?t'"
      by simp_all
    from FindEntry_eq [OF p(2) this] p(3) have "Find HashKey k ?t' = Inr (Some v)"
      by (simp add: Find_def)
    with p fe Some show ?thesis
      by (intro exI [of _ ?t']) simp
  qed
  then obtain t' where t': "SetValue HashKey k v t = Inr t'" "table_ok HashKey t'"
     "table_size t' = table_size t" "Find HashKey k t' = Inr (Some v)"
     "List.find (\<lambda>n. key (snd n) = k) (entry_list t') \<noteq> None"
     "case FindEntry HashKey k t of
        Inl e \<Rightarrow> False
      | Inr None \<Rightarrow> Add HashKey k v t = Inr t'
      | Inr (Some cur_entry) \<Rightarrow>
          t' = t\<lparr>entry_list :=
                   map (\<lambda>n. if fst n = fst cur_entry then (fst n, (snd n)\<lparr>data := v\<rparr>) else n)
                       (entry_list t)\<rparr> \<and>
          entry_count t' = entry_count t \<and>
          length (entry_list t') = length (entry_list t) \<and>
          map (\<lambda>n. key (snd n)) (entry_list t') = map (\<lambda>n. key (snd n)) (entry_list t)"
    by blast
  from t'(5) obtain cur where cur: "List.find (\<lambda>n. key (snd n) = k) (entry_list t') = Some cur"
    by blast
  from t'(3) assms have h': "HashKey k (table_size t') = Inr bin" "0 \<le> bin" "bin < table_size t'"
    by simp_all
  from SetValue_present_result [OF t'(2) h' cur, of v']
  have "\<exists>t''. SetValue HashKey k v' t' = Inr t'' \<and>
        Find HashKey k t'' = Inr (Some v') \<and>
        entry_count t'' = entry_count t' \<and>
        map fst (entry_list t'') = map fst (entry_list t') \<and>
        map (\<lambda>n. key (snd n)) (entry_list t'') = map (\<lambda>n. key (snd n)) (entry_list t')"
    by blast
  with t'(1,4,6) show ?thesis by blast
qed

theorem SetValue_upsert_witness:
  "table_ok HashKey_cString
     \<lparr>entry_count = 1, table_size = 3,
      entry_list = [(0, \<lparr>key = ''a'', entry_id = 1, data = 1 :: int\<rparr>)],
      cell_array = [None, Some 0, None], next_node = 1\<rparr> \<and>
   HashKey_cString ''a'' 3 = Inr 1 \<and>
   (\<exists>t'. SetValue HashKey_cString ''a'' 9
           \<lparr>entry_count = 1, table_size = 3,
            entry_list = [(0, \<lparr>key = ''a'', entry_id = 1, data = 1 :: int\<rparr>)],
            cell_array = [None, Some 0, None], next_node = 1\<rparr> = Inr t' \<and>
         Find HashKey_cString ''a'' t' = Inr (Some 9) \<and>
         entry_count t' = 1 \<and>
         (\<exists>t''. SetValue HashKey_cString ''a'' 11 t' = Inr t'' \<and>
            Find HashKey_cString ''a'' t'' = Inr (Some 11) \<and> entry_count t'' = 1))"
proof -
  let ?T = "\<lparr>entry_count = 1, table_size = 3,
      entry_list = [(0, \<lparr>key = ''a'', entry_id = 1, data = 1 :: int\<rparr>)],
      cell_array = [None, Some 0, None], next_node = 1\<rparr> :: (string, int) tHashTable"
  have ok: "table_ok HashKey_cString ?T" by code_simp
  have hash: "HashKey_cString ''a'' (table_size ?T) = Inr 1" by code_simp
  have found: "FindEntry HashKey_cString ''a'' ?T =
      Inr (Some (0, \<lparr>key = ''a'', entry_id = 1, data = 1\<rparr>))"
    by code_simp
  from SetValue_upsert [OF ok hash, of 9 11] found ok hash show ?thesis
    by auto
qed

section \<open>SetTableSize and the snapshot\<close>

lemma SetTableSize_result:
  assumes h: "hash_in_range H" and n: "1 \<le> sint n"
    and c: "entry_count t = int (length (entry_list t))"
  shows "\<exists>t'. SetTableSize H n t = Inr t' \<and> table_ok H t' \<and> table_size t' = sint n \<and>
           entry_count t' = entry_count t \<and>
           mset (map (\<lambda>n. (key (snd n), data (snd n))) (entry_list t')) =
           mset (map (\<lambda>n. (key (snd n), data (snd n))) (entry_list t))"
proof -
  let ?t0 = "t\<lparr>table_size := sint n, cell_array := replicate (nat (sint n)) None,
               entry_list := []\<rparr>"
  have "sint n < 2 ^ 31" using sint_lt [of n] by simp
  then have s0: "structure_ok H (table_size ?t0) (entry_list ?t0) (cell_array ?t0) (next_node ?t0)"
    by (simp add: structure_ok_empty)
  from n have "0 < table_size ?t0" by simp
  from SetTableSize_loop_total [OF h this s0, of "entry_list t"] obtain t' where
    loop: "SetTableSize_loop H (entry_list t) ?t0 = Inr t'"
    by blast
  from n loop have "SetTableSize H n t = Inr t'"
    by (simp add: SetTableSize_def tArray_ResizeClear_def)
  with SetTableSize_loop_ok [OF s0 loop] c show ?thesis
    by (auto simp: table_ok_def)
qed

lemma AsLists_mset:
  "mset (zip (fst (AsLists t)) (snd (AsLists t))) =
   mset (map (\<lambda>n. (key (snd n), data (snd n))) (entry_list t))"
  by (simp only: AsLists_zip(2) mset_sort mset_rev)

lemma AsLists_keys_mset:
  assumes "mset (map (\<lambda>n. (key (snd n), data (snd n))) (entry_list t')) =
           mset (map (\<lambda>n. (key (snd n), data (snd n))) (entry_list t))"
  shows "fst (AsLists t') = fst (AsLists t)"
proof -
  have "\<And>l :: ('a, 'b) tHashEntry tList. mset (map (\<lambda>n. key (snd n)) l) =
      image_mset fst (mset (map (\<lambda>n. (key (snd n), data (snd n))) l))"
    by (simp add: image_mset.compositionality comp_def)
  with assms have "mset (map (\<lambda>n. key (snd n)) (entry_list t')) =
      mset (map (\<lambda>n. key (snd n)) (entry_list t))"
    by simp
  then have "sort (map (\<lambda>n. key (snd n)) (entry_list t')) =
      sort (map (\<lambda>n. key (snd n)) (entry_list t))"
    by (intro properties_for_sort) simp_all
  then show ?thesis by (simp only: AsLists_keys)
qed

text \<open>
  C6. For an overload of \<^verbatim>\<open>HashKey\<close> that returns an index, a table whose
  \<^verbatim>\<open>entry_count\<close> is the length of its list, and a size of at least 1,
  \<^verbatim>\<open>SetTableSize\<close> returns. \<^verbatim>\<open>AsLists\<close> of the new table gives the same multiset of (key,
  value) pairs as \<^verbatim>\<open>AsLists\<close> of the old one, and the same key list. In the new table
  every \<^verbatim>\<open>id\<close> is the hash of its key under the new size, the entries of one \<^verbatim>\<open>id\<close> form
  one run, and the other invariants hold too.
\<close>

theorem SetTableSize_keeps_snapshot:
  fixes t :: "('k::linorder, 'v) tHashTable"
  assumes "hash_in_range HashKey" and "1 \<le> sint new_size"
    and "entry_count t = int (length (entry_list t))"
  shows "\<exists>t'. SetTableSize HashKey new_size t = Inr t' \<and>
     mset (zip (fst (AsLists t')) (snd (AsLists t'))) =
       mset (zip (fst (AsLists t)) (snd (AsLists t))) \<and>
     fst (AsLists t') = fst (AsLists t) \<and>
     table_size t' = sint new_size \<and>
     list_all (\<lambda>n. HashKey (key (snd n)) (sint new_size) = Inr (entry_id (snd n)))
       (entry_list t') \<and>
     contiguous_runs (map (\<lambda>n. entry_id (snd n)) (entry_list t')) \<and>
     table_invariants HashKey t'"
proof -
  from SetTableSize_result [OF assms] obtain t' where
    t': "SetTableSize HashKey new_size t = Inr t'" "table_ok HashKey t'"
      "table_size t' = sint new_size"
      "mset (map (\<lambda>n. (key (snd n), data (snd n))) (entry_list t')) =
       mset (map (\<lambda>n. (key (snd n), data (snd n))) (entry_list t))"
    by blast
  from t'(2) have inv: "table_invariants HashKey t'" by (rule table_ok_invariants)
  with t'(3) have "list_all (\<lambda>n. HashKey (key (snd n)) (sint new_size) = Inr (entry_id (snd n)))
       (entry_list t')"
    and "contiguous_runs (map (\<lambda>n. entry_id (snd n)) (entry_list t'))"
    by (simp_all add: table_invariants_def list_all_iff)
  moreover have "mset (zip (fst (AsLists t')) (snd (AsLists t'))) =
       mset (zip (fst (AsLists t)) (snd (AsLists t)))"
    by (simp only: AsLists_mset t'(4))
  ultimately show ?thesis
    using t'(1,3) inv AsLists_keys_mset [OF t'(4)] by blast
qed

theorem SetTableSize_keeps_snapshot_witness:
  "hash_in_range HashKey_cString \<and> 1 \<le> sint (2 :: c_int) \<and>
   (\<exists>t'. SetTableSize HashKey_cString 2
           \<lparr>entry_count = 3, table_size = 3,
            entry_list =
              [(3, \<lparr>key = ''a'', entry_id = 1, data = 7 :: int\<rparr>),
               (0, \<lparr>key = ''a'', entry_id = 1, data = 5\<rparr>),
               (2, \<lparr>key = ''b'', entry_id = 2, data = 3\<rparr>)],
            cell_array = [None, Some 3, Some 2], next_node = 4\<rparr> = Inr t' \<and>
         mset (zip (fst (AsLists t')) (snd (AsLists t'))) =
           {#(''a'', 7), (''a'', 5), (''b'', 3)#} \<and>
         fst (AsLists t') = [''a'', ''a'', ''b''] \<and>
         table_size t' = 2 \<and>
         table_invariants HashKey_cString t')"
proof -
  let ?T = "\<lparr>entry_count = 3, table_size = 3,
            entry_list =
              [(3, \<lparr>key = ''a'', entry_id = 1, data = 7 :: int\<rparr>),
               (0, \<lparr>key = ''a'', entry_id = 1, data = 5\<rparr>),
               (2, \<lparr>key = ''b'', entry_id = 2, data = 3\<rparr>)],
            cell_array = [None, Some 3, Some 2], next_node = 4\<rparr> :: (string, int) tHashTable"
  have n: "1 \<le> sint (2 :: c_int)" by simp
  have c: "entry_count ?T = int (length (entry_list ?T))" by simp
  have a: "AsLists ?T = ([''a'', ''a'', ''b''], [5, 7, 3])" by code_simp
  from SetTableSize_keeps_snapshot [OF HashKey_cString_in_range n c] obtain t' where
    "SetTableSize HashKey_cString 2 ?T = Inr t'"
    "mset (zip (fst (AsLists t')) (snd (AsLists t'))) =
       mset (zip (fst (AsLists ?T)) (snd (AsLists ?T)))"
    "fst (AsLists t') = fst (AsLists ?T)" "table_size t' = sint (2 :: c_int)"
    "table_invariants HashKey_cString t'"
    by blast
  then have "SetTableSize HashKey_cString 2 ?T = Inr t' \<and>
         mset (zip (fst (AsLists t')) (snd (AsLists t'))) =
           {#(''a'', 7), (''a'', 5), (''b'', 3)#} \<and>
         fst (AsLists t') = [''a'', ''a'', ''b''] \<and>
         table_size t' = 2 \<and>
         table_invariants HashKey_cString t'"
    by (simp add: a)
  with n HashKey_cString_in_range show ?thesis by blast
qed

section \<open>NearMatch\<close>

lemma NearMatch_loop_result:
  "NearMatch_loop f name ks (bm, bd) = (bm', bd') \<Longrightarrow>
   (\<forall>k\<in>set ks. bd' \<le> f name k) \<and> bd' \<le> bd \<and>
   ((bm', bd') = (bm, bd) \<or>
    (bd' < bd \<and> f name bm' = bd' \<and>
     (\<exists>xs ys. ks = xs @ bm' # ys \<and> (\<forall>x\<in>set xs. bd' < f name x))))"
proof (induction ks arbitrary: bm bd)
  case Nil
  then show ?case by simp
next
  case (Cons k ks)
  show ?case
  proof (cases "f name k < bd")
    case True
    with Cons.prems have loop: "NearMatch_loop f name ks (k, f name k) = (bm', bd')"
      by simp
    from Cons.IH [OF loop] have all: "\<forall>x\<in>set ks. bd' \<le> f name x" and le: "bd' \<le> f name k"
      and or: "(bm', bd') = (k, f name k) \<or>
        (bd' < f name k \<and> f name bm' = bd' \<and>
         (\<exists>xs ys. ks = xs @ bm' # ys \<and> (\<forall>x\<in>set xs. bd' < f name x)))"
      by simp_all
    from or have "\<exists>xs ys. k # ks = xs @ bm' # ys \<and> (\<forall>x\<in>set xs. bd' < f name x)"
    proof
      assume "(bm', bd') = (k, f name k)"
      then have "k # ks = [] @ bm' # ks \<and> (\<forall>x\<in>set []. bd' < f name x)" by simp
      then show ?thesis by blast
    next
      assume "bd' < f name k \<and> f name bm' = bd' \<and>
         (\<exists>xs ys. ks = xs @ bm' # ys \<and> (\<forall>x\<in>set xs. bd' < f name x))"
      then obtain xs ys where "ks = xs @ bm' # ys" "\<forall>x\<in>set xs. bd' < f name x"
        "bd' < f name k"
        by blast
      then have "k # ks = (k # xs) @ bm' # ys \<and> (\<forall>x\<in>set (k # xs). bd' < f name x)"
        by simp
      then show ?thesis by blast
    qed
    moreover from or have "f name bm' = bd'" by auto
    ultimately show ?thesis using all le True by auto
  next
    case False
    with Cons.prems have loop: "NearMatch_loop f name ks (bm, bd) = (bm', bd')"
      by simp
    from Cons.IH [OF loop] have all: "\<forall>x\<in>set ks. bd' \<le> f name x" and le: "bd' \<le> bd"
      and or: "(bm', bd') = (bm, bd) \<or>
        (bd' < bd \<and> f name bm' = bd' \<and>
         (\<exists>xs ys. ks = xs @ bm' # ys \<and> (\<forall>x\<in>set xs. bd' < f name x)))"
      by simp_all
    from or show ?thesis
    proof
      assume "(bm', bd') = (bm, bd)"
      with all le False show ?thesis by auto
    next
      assume a: "bd' < bd \<and> f name bm' = bd' \<and>
         (\<exists>xs ys. ks = xs @ bm' # ys \<and> (\<forall>x\<in>set xs. bd' < f name x))"
      then obtain xs ys where "ks = xs @ bm' # ys" "\<forall>x\<in>set xs. bd' < f name x"
        by blast
      with a False have "k # ks = (k # xs) @ bm' # ys \<and> (\<forall>x\<in>set (k # xs). bd' < f name x)"
        by simp
      then have "\<exists>xs ys. k # ks = xs @ bm' # ys \<and> (\<forall>x\<in>set xs. bd' < f name x)"
        by blast
      with a all le False show ?thesis by auto
    qed
  qed
qed

lemma NearMatch_loop_sorted:
  assumes "sorted ks" and "NearMatch_loop f name ks (bm, bd) = (bm', bd')"
    and "\<exists>k\<in>set ks. f name k < bd"
  shows "bm' \<in> set ks \<and> f name bm' < bd \<and> (\<forall>k\<in>set ks. f name bm' \<le> f name k) \<and>
         (\<forall>k\<in>set ks. f name k = f name bm' \<longrightarrow> bm' \<le> k)"
proof -
  from NearMatch_loop_result [OF assms(2)]
  have all: "\<forall>k\<in>set ks. bd' \<le> f name k"
    and or: "(bm', bd') = (bm, bd) \<or>
      (bd' < bd \<and> f name bm' = bd' \<and>
       (\<exists>xs ys. ks = xs @ bm' # ys \<and> (\<forall>x\<in>set xs. bd' < f name x)))"
    by simp_all
  from assms(3) all have "bd' < bd" by force
  with or obtain xs ys where fb: "f name bm' = bd'" and ks: "ks = xs @ bm' # ys"
    and xs: "\<forall>x\<in>set xs. bd' < f name x"
    by auto
  from assms(1) ks have ys: "\<forall>y\<in>set ys. bm' \<le> y"
    by (simp add: sorted_append)
  have "\<forall>k\<in>set ks. f name k = f name bm' \<longrightarrow> bm' \<le> k"
  proof (intro ballI impI)
    fix k
    assume "k \<in> set ks" and "f name k = f name bm'"
    with ks xs fb have "k = bm' \<or> k \<in> set ys" by auto
    with ys show "bm' \<le> k" by auto
  qed
  with fb ks all \<open>bd' < bd\<close> show ?thesis by simp
qed

lemma NearMatch_eq:
  "NearMatch f name t =
     fst (NearMatch_loop f name (sort (map (\<lambda>n. key (snd n)) (entry_list t)))
            ('''', int (length name)))"
  using AsLists_keys [of t] by (cases "AsLists t") (simp add: NearMatch_def)

text \<open>
  C8. \<^verbatim>\<open>NearMatch\<close> runs its loop over the keys of the table in ascending order, from
  the empty string and the length of the name; a round of the loop takes a key and its
  distance exactly when the distance is strictly less than the best so far. If no key
  has a distance less than the length of the name, the result is the empty string.
  Otherwise the result is a key of the table, its distance is less than the length of the
  name and is the least distance of all keys, and among the keys of that distance it is
  the smallest.
\<close>

theorem NearMatch_first_nearest:
  "NearMatch dist_fn name m_hash =
     fst (NearMatch_loop dist_fn name (sort (map (\<lambda>n. key (snd n)) (entry_list m_hash)))
            ('''', int (length name))) \<and>
   NearMatch_loop dist_fn name (k # ks) (best_match, best_dist) =
     NearMatch_loop dist_fn name ks
       (if dist_fn name k < best_dist then (k, dist_fn name k) else (best_match, best_dist)) \<and>
   ((\<forall>n\<in>set (entry_list m_hash). int (length name) \<le> dist_fn name (key (snd n))) \<longrightarrow>
      NearMatch dist_fn name m_hash = '''') \<and>
   ((\<exists>n\<in>set (entry_list m_hash). dist_fn name (key (snd n)) < int (length name)) \<longrightarrow>
      (\<exists>n\<in>set (entry_list m_hash). NearMatch dist_fn name m_hash = key (snd n)) \<and>
      dist_fn name (NearMatch dist_fn name m_hash) < int (length name) \<and>
      (\<forall>n\<in>set (entry_list m_hash).
         dist_fn name (NearMatch dist_fn name m_hash) \<le> dist_fn name (key (snd n)) \<and>
         (dist_fn name (key (snd n)) = dist_fn name (NearMatch dist_fn name m_hash) \<longrightarrow>
            NearMatch dist_fn name m_hash \<le> key (snd n))))"
proof -
  let ?ks = "sort (map (\<lambda>n. key (snd n)) (entry_list m_hash))"
  let ?r = "NearMatch dist_fn name m_hash"
  obtain bm bd where loop: "NearMatch_loop dist_fn name ?ks ('''', int (length name)) = (bm, bd)"
    by (cases "NearMatch_loop dist_fn name ?ks ('''', int (length name))")
  with NearMatch_eq [of dist_fn name m_hash] have r: "?r = bm" by simp
  have set: "set ?ks = (\<lambda>n. key (snd n)) ` set (entry_list m_hash)" by simp
  have none: "?r = ''''"
    if "\<forall>n\<in>set (entry_list m_hash). int (length name) \<le> dist_fn name (key (snd n))"
  proof -
    from NearMatch_loop_result [OF loop]
    have "(bm, bd) = ('''', int (length name)) \<or>
      (bd < int (length name) \<and> dist_fn name bm = bd \<and>
       (\<exists>xs ys. ?ks = xs @ bm # ys \<and> (\<forall>x\<in>set xs. bd < dist_fn name x)))"
      by simp
    then show ?thesis
    proof
      assume "(bm, bd) = ('''', int (length name))"
      with r show ?thesis by simp
    next
      assume a: "bd < int (length name) \<and> dist_fn name bm = bd \<and>
       (\<exists>xs ys. ?ks = xs @ bm # ys \<and> (\<forall>x\<in>set xs. bd < dist_fn name x))"
      then obtain xs ys where "?ks = xs @ bm # ys" by blast
      then have "bm \<in> set ?ks" by (simp only: set_append) simp
      with set that have "int (length name) \<le> dist_fn name bm" by auto
      with a show ?thesis by simp
    qed
  qed
  have some: "(\<exists>n\<in>set (entry_list m_hash). ?r = key (snd n)) \<and>
      dist_fn name ?r < int (length name) \<and>
      (\<forall>n\<in>set (entry_list m_hash).
         dist_fn name ?r \<le> dist_fn name (key (snd n)) \<and>
         (dist_fn name (key (snd n)) = dist_fn name ?r \<longrightarrow> ?r \<le> key (snd n)))"
    if "\<exists>n\<in>set (entry_list m_hash). dist_fn name (key (snd n)) < int (length name)"
  proof -
    from that set have "\<exists>k\<in>set ?ks. dist_fn name k < int (length name)" by auto
    from NearMatch_loop_sorted [OF _ loop this]
    have "bm \<in> set ?ks" "dist_fn name bm < int (length name)"
      "\<forall>k\<in>set ?ks. dist_fn name bm \<le> dist_fn name k"
      "\<forall>k\<in>set ?ks. dist_fn name k = dist_fn name bm \<longrightarrow> bm \<le> k"
      by simp_all
    with set r show ?thesis by auto
  qed
  from none some NearMatch_eq [of dist_fn name m_hash] show ?thesis
    by (simp add: Let_def)
qed

theorem NearMatch_first_nearest_witness:
  "(\<exists>n\<in>set [(1 :: nat, \<lparr>key = ''cats'', entry_id = 0, data = 2 :: int\<rparr>),
              (0, \<lparr>key = ''bat'', entry_id = 2, data = 1\<rparr>)].
      EditDistance ''cat'' (key (snd n)) < int (length ''cat'')) \<and>
   EditDistance ''cat'' ''bat'' = 1 \<and> EditDistance ''cat'' ''cats'' = 1 \<and>
   NearMatch EditDistance ''cat''
     \<lparr>entry_count = 2, table_size = 3,
      entry_list = [(1, \<lparr>key = ''cats'', entry_id = 0, data = 2 :: int\<rparr>),
                    (0, \<lparr>key = ''bat'', entry_id = 2, data = 1\<rparr>)],
      cell_array = [Some 1, None, Some 0], next_node = 2\<rparr> = ''bat'' \<and>
   ''bat'' \<le> ''cats'' \<and>
   list_all (\<lambda>n. int (length ''zzz'') \<le> EditDistance ''zzz'' (key (snd n)))
     [(1 :: nat, \<lparr>key = ''cats'', entry_id = 0, data = 2 :: int\<rparr>),
      (0, \<lparr>key = ''bat'', entry_id = 2, data = 1\<rparr>)] \<and>
   NearMatch EditDistance ''zzz''
     \<lparr>entry_count = 2, table_size = 3,
      entry_list = [(1, \<lparr>key = ''cats'', entry_id = 0, data = 2 :: int\<rparr>),
                    (0, \<lparr>key = ''bat'', entry_id = 2, data = 1\<rparr>)],
      cell_array = [Some 1, None, Some 0], next_node = 2\<rparr> = ''''"
proof -
  let ?T = "\<lparr>entry_count = 2, table_size = 3,
      entry_list = [(1, \<lparr>key = ''cats'', entry_id = 0, data = 2 :: int\<rparr>),
                    (0, \<lparr>key = ''bat'', entry_id = 2, data = 1\<rparr>)],
      cell_array = [Some 1, None, Some 0], next_node = 2\<rparr> :: (string, int) tHashTable"
  have d: "EditDistance ''cat'' ''bat'' = 1" "EditDistance ''cat'' ''cats'' = 1"
    by code_simp+
  have le: "''bat'' \<le> ''cats''" "\<not> ''cats'' \<le> ''bat''" by code_simp+
  have z: "EditDistance ''zzz'' ''bat'' = 3" "EditDistance ''zzz'' ''cats'' = 4"
    by code_simp+
  have near: "\<exists>n\<in>set (entry_list ?T). EditDistance ''cat'' (key (snd n)) < int (length ''cat'')"
    using d by simp
  have far: "\<forall>n\<in>set (entry_list ?T). int (length ''zzz'') \<le> EditDistance ''zzz'' (key (snd n))"
    using z by simp
  from NearMatch_first_nearest [of EditDistance "''cat''" ?T] near
  have "(\<exists>n\<in>set (entry_list ?T). NearMatch EditDistance ''cat'' ?T = key (snd n))"
    and "\<forall>n\<in>set (entry_list ?T).
         EditDistance ''cat'' (NearMatch EditDistance ''cat'' ?T) \<le>
           EditDistance ''cat'' (key (snd n)) \<and>
         (EditDistance ''cat'' (key (snd n)) =
            EditDistance ''cat'' (NearMatch EditDistance ''cat'' ?T) \<longrightarrow>
            NearMatch EditDistance ''cat'' ?T \<le> key (snd n))"
    by blast+
  with d le have cat: "NearMatch EditDistance ''cat'' ?T = ''bat''" by auto
  from NearMatch_first_nearest [of EditDistance "''zzz''" ?T] far
  have "NearMatch EditDistance ''zzz'' ?T = ''''" by blast
  with cat d le z show ?thesis by simp
qed

section \<open>Load\<close>

lemma SetValue_Find:
  assumes ok: "table_ok H t" and hash: "H k (table_size t) = Inr bin"
    and bin: "0 \<le> bin" "bin < table_size t"
  shows "\<exists>t'. SetValue H k v t = Inr t' \<and> table_ok H t' \<and> Find H k t' = Inr (Some v)"
proof (cases "List.find (\<lambda>n. key (snd n) = k) (entry_list t)")
  case None
  from Add_result [OF assms, of v] obtain t' where
    t': "Add H k v t = Inr t'" "table_ok H t'" "table_size t' = table_size t"
      "entry_list t' =
         takeWhile (\<lambda>n. entry_id (snd n) \<noteq> bin) (entry_list t) @
         (next_node t, \<lparr>key = k, entry_id = bin, data = v\<rparr>) #
         dropWhile (\<lambda>n. entry_id (snd n) \<noteq> bin) (entry_list t)"
    by blast
  from after_Add(1) [OF assms t'(2,3,4)] have "Find H k t' = Inr (Some v)"
    by (simp add: Find_def)
  moreover from None t'(1) have "SetValue H k v t = Inr t'"
    by (simp add: SetValue_eq [OF assms])
  ultimately show ?thesis using t'(2) by blast
next
  case (Some cur_entry)
  from SetValue_present_result [OF assms Some, of v] show ?thesis by blast
qed

lemma cString_Pop_split:
  "cString_Pop assign s = (k, rest) \<Longrightarrow>
   assign \<notin> set k \<and>
   (if assign \<in> set s then s = k @ assign # rest else k = s \<and> rest = [])"
proof (induction s arbitrary: k rest)
  case Nil
  then show ?case by (simp add: cString_Pop_def)
next
  case (Cons c s)
  show ?case
  proof (cases "c = assign")
    case True
    with Cons.prems show ?thesis by (auto simp: cString_Pop_def)
  next
    case False
    with Cons.prems obtain k' where k: "k = c # k'" and "cString_Pop assign s = (k', rest)"
      by (auto simp: cString_Pop_def)
    from Cons.IH [OF this(2)] False k show ?thesis by auto
  qed
qed

text \<open>
  C9. \<^verbatim>\<open>Load\<close> takes as key the part of the string before the first \<open>assign\<close> (the
  whole string if there is none) and gives the part after it to \<open>Convert\<close>. If \<open>Convert\<close>
  stops with an error, \<^verbatim>\<open>Load\<close> stops with that error and no table is returned. If it
  returns a value, \<^verbatim>\<open>Load\<close> is \<^verbatim>\<open>SetValue\<close> of the key and the value; on a dictionary that
  satisfies the invariant and whose size is positive it returns, and \<^verbatim>\<open>Find\<close> of the key
  then returns the value.
\<close>

theorem Load_splits_converts_upserts:
  assumes "cString_Pop assign load_string = (k, rest)"
  shows "assign \<notin> set k \<and>
     (if assign \<in> set load_string then load_string = k @ assign # rest
      else k = load_string \<and> rest = []) \<and>
     (case Convert rest of
        Inl e \<Rightarrow> Load Convert load_string assign m_hash = Inl e
      | Inr v \<Rightarrow>
          Load Convert load_string assign m_hash = SetValue HashKey_cString k v m_hash \<and>
          (table_ok HashKey_cString m_hash \<and> 0 < table_size m_hash \<longrightarrow>
             (\<exists>t'. Load Convert load_string assign m_hash = Inr t' \<and>
                   Find HashKey_cString k t' = Inr (Some v))))"
proof -
  have load: "case Convert rest of
        Inl e \<Rightarrow> Load Convert load_string assign m_hash = Inl e
      | Inr v \<Rightarrow> Load Convert load_string assign m_hash = SetValue HashKey_cString k v m_hash"
    using assms by (simp add: Load_def split: sum.splits)
  have "\<exists>t'. SetValue HashKey_cString k v m_hash = Inr t' \<and>
          Find HashKey_cString k t' = Inr (Some v)"
    if ok: "table_ok HashKey_cString m_hash" and pos: "0 < table_size m_hash" for v
  proof -
    from ok have "table_size m_hash < 2 ^ 31"
      by (simp add: table_ok_def structure_ok_def)
    with pos HashKey_cString_in_range obtain bin where
      "HashKey_cString k (table_size m_hash) = Inr bin" "0 \<le> bin" "bin < table_size m_hash"
      unfolding hash_in_range_def by blast
    from SetValue_Find [OF ok this, of v] show ?thesis by blast
  qed
  with load cString_Pop_split [OF assms] show ?thesis
    by (auto split: sum.splits)
qed

theorem Load_splits_converts_upserts_witness:
  "cString_Pop CHR ''='' ''x=42'' = (''x'', ''42'') \<and>
   cString_Pop CHR ''='' ''x=abc'' = (''x'', ''abc'') \<and>
   table_ok HashKey_cString
     \<lparr>entry_count = 1, table_size = 3,
      entry_list = [(0, \<lparr>key = ''a'', entry_id = 1, data = 1 :: int\<rparr>)],
      cell_array = [None, Some 0, None], next_node = 1\<rparr> \<and>
   (\<exists>t'. Load (\<lambda>s. if s = ''42'' then Inr 42 else Inl ConversionFailure) ''x=42'' CHR ''=''
           \<lparr>entry_count = 1, table_size = 3,
            entry_list = [(0, \<lparr>key = ''a'', entry_id = 1, data = 1 :: int\<rparr>)],
            cell_array = [None, Some 0, None], next_node = 1\<rparr> = Inr t' \<and>
         Find HashKey_cString ''x'' t' = Inr (Some 42)) \<and>
   Load (\<lambda>s. if s = ''42'' then Inr 42 else Inl ConversionFailure) ''x=abc'' CHR ''=''
     \<lparr>entry_count = 1, table_size = 3,
      entry_list = [(0, \<lparr>key = ''a'', entry_id = 1, data = 1 :: int\<rparr>)],
      cell_array = [None, Some 0, None], next_node = 1\<rparr> = Inl ConversionFailure"
proof -
  let ?T = "\<lparr>entry_count = 1, table_size = 3,
      entry_list = [(0, \<lparr>key = ''a'', entry_id = 1, data = 1 :: int\<rparr>)],
      cell_array = [None, Some 0, None], next_node = 1\<rparr> :: (string, int) tHashTable"
  let ?Convert = "\<lambda>s. if s = ''42'' then Inr (42 :: int) else Inl ConversionFailure"
  have ok: "table_ok HashKey_cString ?T" by code_simp
  have p1: "cString_Pop CHR ''='' ''x=42'' = (''x'', ''42'')" by code_simp
  have p2: "cString_Pop CHR ''='' ''x=abc'' = (''x'', ''abc'')" by code_simp
  from Load_splits_converts_upserts [OF p1, of ?Convert ?T] ok
  have "\<exists>t'. Load ?Convert ''x=42'' CHR ''='' ?T = Inr t' \<and>
         Find HashKey_cString ''x'' t' = Inr (Some 42)"
    by simp metis
  moreover from Load_splits_converts_upserts [OF p2, of ?Convert ?T]
  have "Load ?Convert ''x=abc'' CHR ''='' ?T = Inl ConversionFailure"
    by simp
  ultimately show ?thesis using ok p1 p2 by blast
qed

end
